theory Spec2Isabelle
  imports Main "HOL-Library.Sublist" "HOL-Library.Multiset"
begin

section \<open>Strings\<close>

text \<open>
  A JavaScript string is a sequence of UTF-16 code units, and every offset of the program
  (\<open>index\<close>, \<open>startIndex\<close>, \<open>endIndex\<close>, \<open>substring\<close>, \<open>indexOf\<close>) counts code units.
  A code unit is modelled as a natural number and a string as a list of them; \<open>str\<close>
  reads an ASCII literal.
\<close>

type_synonym cu = nat

type_synonym jstr = "cu list"

definition str :: "string \<Rightarrow> jstr" where
  "str = map of_char"

text \<open>
  The white space of \<open>String.prototype.trim\<close> and of the pattern class \<open>\s\<close>: the
  ECMAScript WhiteSpace and LineTerminator code points.
\<close>

definition is_space :: "cu \<Rightarrow> bool" where
  "is_space c =
     (c = 9 \<or> c = 10 \<or> c = 11 \<or> c = 12 \<or> c = 13 \<or> c = 32 \<or> c = 160 \<or> c = 5760
      \<or> (8192 \<le> c \<and> c \<le> 8202) \<or> c = 8232 \<or> c = 8233 \<or> c = 8239 \<or> c = 8287
      \<or> c = 12288 \<or> c = 65279)"

definition is_word :: "cu \<Rightarrow> bool" where
  "is_word c = ((48 \<le> c \<and> c \<le> 57) \<or> (65 \<le> c \<and> c \<le> 90) \<or> c = 95 \<or> (97 \<le> c \<and> c \<le> 122))"

definition trimStart :: "jstr \<Rightarrow> jstr" where
  "trimStart s = dropWhile is_space s"

definition trimEnd :: "jstr \<Rightarrow> jstr" where
  "trimEnd s = rev (dropWhile is_space (rev s))"

definition trim :: "jstr \<Rightarrow> jstr" where
  "trim s = trimEnd (trimStart s)"

definition startsWith :: "jstr \<Rightarrow> jstr \<Rightarrow> bool" where
  "startsWith s p = (take (length p) s = p)"

text \<open>
  \<open>s.substring(a, b)\<close> clamps both arguments to the length of \<open>s\<close> and swaps them when
  \<open>a > b\<close>; \<open>s.substring(a)\<close> runs to the end.
\<close>

definition substring :: "jstr \<Rightarrow> nat \<Rightarrow> nat \<Rightarrow> jstr" where
  "substring s a b =
     (let a' = min a (length s); b' = min b (length s)
      in take (max a' b' - min a' b') (drop (min a' b') s))"

definition substringFrom :: "jstr \<Rightarrow> nat \<Rightarrow> jstr" where
  "substringFrom s a = drop a s"

text \<open>\<open>s.split("\n")\<close>: the pieces between line feeds; never empty.\<close>

fun splitLines :: "jstr \<Rightarrow> jstr list" where
  "splitLines [] = [[]]"
| "splitLines (x # xs) =
     (if x = 10 then [] # splitLines xs
      else (case splitLines xs of [] \<Rightarrow> [[x]] | l # ls \<Rightarrow> (x # l) # ls))"

text \<open>\<open>parts.join("\n")\<close>.\<close>

fun joinLines :: "jstr list \<Rightarrow> jstr" where
  "joinLines [] = []"
| "joinLines [l] = l"
| "joinLines (l # m # ls) = l @ [10] @ joinLines (m # ls)"

text \<open>
  \<open>s.indexOf(p)\<close> and \<open>s.indexOf(p, from)\<close>: the first offset at or after \<open>from\<close> where
  \<open>p\<close> occurs, \<open>None\<close> for JavaScript's \<open>-1\<close>.
\<close>

fun findSub :: "jstr \<Rightarrow> jstr \<Rightarrow> nat option" where
  "findSub p [] = (if p = [] then Some 0 else None)"
| "findSub p (x # xs) =
     (if take (length p) (x # xs) = p then Some 0 else map_option Suc (findSub p xs))"

definition indexOf :: "jstr \<Rightarrow> jstr \<Rightarrow> nat \<Rightarrow> nat option" where
  "indexOf s p from =
     map_option (\<lambda>k. min from (length s) + k) (findSub p (drop from s))"

section \<open>Regular expressions\<close>

text \<open>
  The patterns of the program use literals, character classes, sequence, ordered
  alternation, greedy and lazy repetition, the optional group and capture groups; no
  anchors, look-around or back-references (the \<open>m\<close> flag of two of them only changes
  \<open>^\<close> and \<open>$\<close>, which they do not use). \<open>ms r (s, c)\<close> lists, in the priority order of
  the backtracking matcher, every way \<open>r\<close> can match a prefix of \<open>s\<close>: the text left
  over and the captures. As in ECMAScript, an iteration of a repetition that consumes
  nothing is rejected.
\<close>

datatype re =
    Lit jstr
  | Cls "cu \<Rightarrow> bool"
  | Seq re re
  | Alt re re
  | Star re
  | Lazy re
  | Opt re
  | Grp nat re

type_synonym caps = "nat \<rightharpoonup> jstr"

fun ms :: "re \<Rightarrow> jstr \<times> caps \<Rightarrow> (jstr \<times> caps) list" where
  "ms (Lit l) (s, c) = (if take (length l) s = l then [(drop (length l) s, c)] else [])"
| "ms (Cls p) (s, c) = (case s of [] \<Rightarrow> [] | x # xs \<Rightarrow> if p x then [(xs, c)] else [])"
| "ms (Seq a b) sc = concat (map (ms b) (ms a sc))"
| "ms (Alt a b) sc = ms a sc @ ms b sc"
| "ms (Star a) (s, c) =
     concat (map (\<lambda>(s', c'). if length s' < length s then ms (Star a) (s', c') else [])
               (ms a (s, c)))
     @ [(s, c)]"
| "ms (Lazy a) (s, c) =
     (s, c) #
     concat (map (\<lambda>(s', c'). if length s' < length s then ms (Lazy a) (s', c') else [])
               (ms a (s, c)))"
| "ms (Opt a) (s, c) =
     concat (map (\<lambda>(s', c'). if length s' < length s then [(s', c')] else []) (ms a (s, c)))
     @ [(s, c)]"
| "ms (Grp n a) (s, c) =
     map (\<lambda>(s', c'). (s', c'(n \<mapsto> take (length s - length s') s))) (ms a (s, c))"

text \<open>\<open>r+\<close>, a sequence of patterns, and an alternation of literals.\<close>

definition Plus :: "re \<Rightarrow> re" where
  "Plus r = Seq r (Star r)"

fun seqs :: "re list \<Rightarrow> re" where
  "seqs [] = Lit []"
| "seqs [r] = r"
| "seqs (r # q # rs) = Seq r (seqs (q # rs))"

fun alts :: "jstr list \<Rightarrow> re" where
  "alts [] = Cls (\<lambda>_. False)"
| "alts [l] = Lit l"
| "alts (l # m # ls) = Alt (Lit l) (alts (m # ls))"

text \<open>
  The result of \<open>RegExp.prototype.exec\<close>: \<open>index\<close>, the matched text \<open>match[0]\<close> and the
  groups \<open>match[1]\<close>, ... (\<open>None\<close> for \<open>undefined\<close>). \<open>reExec r s lastIndex\<close> is the
  leftmost match at or after \<open>lastIndex\<close>, of highest priority there.
\<close>

record RegExpMatch =
  index :: nat
  matched :: jstr
  groups :: caps

fun execAt :: "re \<Rightarrow> nat \<Rightarrow> jstr \<Rightarrow> RegExpMatch option" where
  "execAt r i [] =
     (case ms r ([], Map.empty) of
        [] \<Rightarrow> None
      | (s', c) # _ \<Rightarrow> Some \<lparr>index = i, matched = [], groups = c\<rparr>)"
| "execAt r i (x # xs) =
     (case ms r (x # xs, Map.empty) of
        [] \<Rightarrow> execAt r (Suc i) xs
      | (s', c) # _ \<Rightarrow>
          Some \<lparr>index = i, matched = take (length (x # xs) - length s') (x # xs), groups = c\<rparr>)"

definition reExec :: "re \<Rightarrow> jstr \<Rightarrow> nat \<Rightarrow> RegExpMatch option" where
  "reExec r s lastIndex = (if lastIndex \<le> length s then execAt r lastIndex (drop lastIndex s) else None)"

text \<open>A group of a match, \<open>""\<close> when it is \<open>undefined\<close> (\<open>match[1] || ""\<close>).\<close>

definition grp :: "RegExpMatch \<Rightarrow> nat \<Rightarrow> jstr" where
  "grp m n = (case groups m n of None \<Rightarrow> [] | Some g \<Rightarrow> g)"

declare ms.simps(5) [simp del]

declare ms.simps(6) [simp del]

subsection \<open>What a match consumes\<close>

lemma ms_suffix: "(s', c') \<in> set (ms r sc) \<Longrightarrow> suffix s' (fst sc)"
proof (induction r sc arbitrary: s' c' rule: ms.induct)
  case (1 l s c)
  then show ?case by (auto simp: suffix_drop split: if_splits)
next
  case (2 p s c)
  then show ?case by (auto simp: suffix_Cons split: list.splits if_splits)
next
  case (3 a b sc)
  from "3.prems" obtain m where m: "m \<in> set (ms a sc)" and s': "(s', c') \<in> set (ms b m)"
    by auto
  from "3.IH"(1)[of "fst m" "snd m"] m have "suffix (fst m) (fst sc)" by simp
  moreover from "3.IH"(2)[OF m s'] have "suffix s' (fst m)" .
  ultimately show ?case using suffix_order.trans by blast
next
  case (4 a b sc)
  then show ?case by auto
next
  case (5 a s c)
  from "5.prems" have "(s', c') = (s, c) \<or>
    (\<exists>t d. (t, d) \<in> set (ms a (s, c)) \<and> length t < length s \<and> (s', c') \<in> set (ms (Star a) (t, d)))"
    by (subst (asm) ms.simps(5)) (auto simp del: ms.simps split: if_splits)
  then consider "(s', c') = (s, c)"
    | t d where "(t, d) \<in> set (ms a (s, c))" "length t < length s" "(s', c') \<in> set (ms (Star a) (t, d))"
    by blast
  then show ?case
  proof cases
    case 1
    then show ?thesis by simp
  next
    case 2
    from "5.IH"(1)[OF 2(1)] have "suffix t s" by simp
    moreover from "5.IH"(2)[OF 2(1) refl 2(2) 2(3)] have "suffix s' t" by simp
    ultimately show ?thesis using suffix_order.trans by fastforce
  qed
next
  case (6 a s c)
  from "6.prems" have "(s', c') = (s, c) \<or>
    (\<exists>t d. (t, d) \<in> set (ms a (s, c)) \<and> length t < length s \<and> (s', c') \<in> set (ms (Lazy a) (t, d)))"
    by (subst (asm) ms.simps(6)) (auto simp del: ms.simps split: if_splits)
  then consider "(s', c') = (s, c)"
    | t d where "(t, d) \<in> set (ms a (s, c))" "length t < length s" "(s', c') \<in> set (ms (Lazy a) (t, d))"
    by blast
  then show ?case
  proof cases
    case 1
    then show ?thesis by simp
  next
    case 2
    from "6.IH"(1)[OF 2(1)] have "suffix t s" by simp
    moreover from "6.IH"(2)[OF 2(1) refl 2(2) 2(3)] have "suffix s' t" by simp
    ultimately show ?thesis using suffix_order.trans by fastforce
  qed
next
  case (7 a s c)
  then show ?case by (auto split: if_splits)
next
  case (8 n a s c)
  then show ?case by auto
qed


lemma ms_length: "(s', c') \<in> set (ms r (s, c)) \<Longrightarrow> length s' \<le> length s"
  using ms_suffix[of s' c' r "(s, c)"] by (simp add: suffix_length_le)

lemma ms_drop: "(s', c') \<in> set (ms r (s, c)) \<Longrightarrow> s' = drop (length s - length s') s"
  using ms_suffix[of s' c' r "(s, c)"] by (auto simp: suffix_def)

lemma ms_Lit_Seq_length:
  "(s', c') \<in> set (ms (Seq (Lit l) r) (s, c)) \<Longrightarrow> length s' + length l \<le> length s"
proof -
  assume a: "(s', c') \<in> set (ms (Seq (Lit l) r) (s, c))"
  then have t: "take (length l) s = l" and m: "(s', c') \<in> set (ms r (drop (length l) s, c))"
    by (auto split: if_splits)
  from t have "length (take (length l) s) = length l" by simp
  then have "length l \<le> length s" by simp
  moreover from ms_length[OF m] have "length s' \<le> length s - length l" by simp
  ultimately show ?thesis by simp
qed

lemma execAt_bounds:
  "execAt r i s = Some m \<Longrightarrow>
     i \<le> index m \<and> index m + length (matched m) \<le> i + length s
     \<and> matched m = take (length (matched m)) (drop (index m - i) s)"
proof (induction s arbitrary: i)
  case Nil
  then show ?case by (auto split: list.splits)
next
  case (Cons x xs)
  show ?case
  proof (cases "ms r (x # xs, Map.empty)")
    case Nil
    with Cons.prems have "execAt r (Suc i) xs = Some m" by simp
    from Cons.IH[OF this] have ih: "Suc i \<le> index m"
      "index m + length (matched m) \<le> Suc i + length xs"
      "matched m = take (length (matched m)) (drop (index m - Suc i) xs)" by auto
    from ih(1) have "index m - i = Suc (index m - Suc i)" by simp
    then have "drop (index m - i) (x # xs) = drop (index m - Suc i) xs" by simp
    with ih show ?thesis by simp
  next
    case (Cons a list)
    with Cons.prems show ?thesis by (auto split: prod.splits)
  qed
qed

lemma reExec_bounds:
  "reExec r s k = Some m \<Longrightarrow>
     k \<le> index m \<and> index m + length (matched m) \<le> length s
     \<and> matched m = take (length (matched m)) (drop (index m) s)"
proof -
  assume a: "reExec r s k = Some m"
  then have k: "k \<le> length s" and e: "execAt r k (drop k s) = Some m"
    by (auto simp: reExec_def split: if_splits)
  from execAt_bounds[OF e] k show ?thesis by auto
qed

lemma execAt_nonempty:
  "execAt (Seq (Lit (a # l)) r) i s = Some m \<Longrightarrow> 0 < length (matched m)"
proof (induction s arbitrary: i)
  case Nil
  then show ?case by (auto split: list.splits if_splits)
next
  case (Cons x xs)
  show ?case
  proof (cases "ms (Seq (Lit (a # l)) r) (x # xs, Map.empty)")
    case Nil
    with Cons.prems have "execAt (Seq (Lit (a # l)) r) (Suc i) xs = Some m"
      by (simp del: ms.simps)
    from Cons.IH[OF this] show ?thesis .
  next
    case (Cons p ps)
    obtain s' c' where p: "p = (s', c')" by (cases p)
    with Cons have "(s', c') \<in> set (ms (Seq (Lit (a # l)) r) (x # xs, Map.empty))" by simp
    from ms_Lit_Seq_length[OF this] have "length s' < length (x # xs)" by simp
    moreover from Cons p Cons.prems have "matched m = take (length (x # xs) - length s') (x # xs)"
      by (auto simp del: ms.simps)
    ultimately show ?thesis by simp
  qed
qed

section \<open>Markdown scanning\<close>

datatype EmbedKind = Ts | Cs

fun kindStr :: "EmbedKind \<Rightarrow> jstr" where
  "kindStr Ts = str ''ts''"
| "kindStr Cs = str ''cs''"

text \<open>
  \<open>endIndex\<close> is an integer: the offset after the closing marker, or \<open>-1\<close> when the
  scan found none.
\<close>

record EmbedDirective =
  kind :: EmbedKind
  sourcePath :: jstr
  symbolName :: jstr
  lineNumber :: nat
  startIndex :: nat
  endIndex :: int

text \<open>The entries of \<open>openMarkers\<close>: \<open>index\<close>, \<open>length\<close>, \<open>kind\<close>, \<open>sourcePath\<close>, \<open>symbolName\<close>.\<close>

record OpenMarker =
  m_index :: nat
  m_length :: nat
  m_kind :: EmbedKind
  m_sourcePath :: jstr
  m_symbolName :: jstr

text \<open>\<^verbatim>\<open>/<!--\s*(ts-embed|cs-embed)\s*:\s*([^#]+)#(\S+?)\s*-->/g\<close>\<close>

definition markerRe :: re where
  "markerRe =
     Seq (Lit (str ''<!--''))
      (seqs [Star (Cls is_space),
             Grp 1 (Alt (Lit (str ''ts-embed'')) (Lit (str ''cs-embed''))),
             Star (Cls is_space),
             Lit (str '':''),
             Star (Cls is_space),
             Grp 2 (Plus (Cls (\<lambda>c. c \<noteq> 35))),
             Lit (str ''#''),
             Grp 3 (Seq (Cls (\<lambda>c. \<not> is_space c)) (Lazy (Cls (\<lambda>c. \<not> is_space c)))),
             Star (Cls is_space),
             Lit (str ''-->'')])"

lemma markerRe_nonempty: "reExec markerRe s k = Some m \<Longrightarrow> 0 < length (matched m)"
  unfolding markerRe_def reExec_def str_def
  by (auto split: if_splits dest: execAt_nonempty)

text \<open>
  The first pass: \<open>while ((match = markerRe.exec(content)) !== null)\<close>, the state of the
  loop being the pattern's \<open>lastIndex\<close>, which \<open>exec\<close> sets to the end of the match.
\<close>

function collectMarkers :: "jstr \<Rightarrow> nat \<Rightarrow> OpenMarker list" where
  "collectMarkers content lastIndex =
     (case reExec markerRe content lastIndex of
        None \<Rightarrow> []
      | Some m \<Rightarrow>
          \<lparr>m_index = index m,
           m_length = length (matched m),
           m_kind = (if startsWith (grp m 1) (str ''ts'') then Ts else Cs),
           m_sourcePath = trim (grp m 2),
           m_symbolName = trim (grp m 3)\<rparr>
          # collectMarkers content (index m + length (matched m)))"
  by pat_completeness auto
termination
proof (relation "measure (\<lambda>(content, lastIndex). Suc (length content) - lastIndex)")
  show "wf (measure (\<lambda>(content, lastIndex). Suc (length content) - lastIndex))" by simp
next
  fix content :: jstr and lastIndex :: nat and m :: RegExpMatch
  assume a: "reExec markerRe content lastIndex = Some m"
  from reExec_bounds[OF a] have "lastIndex \<le> index m"
    and "index m + length (matched m) \<le> length content" by simp_all
  moreover from markerRe_nonempty[OF a] have "0 < length (matched m)" .
  ultimately have "Suc (length content) - (index m + length (matched m))
      < Suc (length content) - lastIndex" by arith
  then show "((content, index m + length (matched m)), (content, lastIndex))
          \<in> measure (\<lambda>(content, lastIndex). Suc (length content) - lastIndex)"
    by simp
qed

declare collectMarkers.simps [simp del]

definition closeTagOf :: "EmbedKind \<Rightarrow> jstr" where
  "closeTagOf k = str ''<!-- /'' @ kindStr k @ str ''-embed -->''"

text \<open>
  The second pass, \<open>for (let i = 0; i < openMarkers.length; i++)\<close>: the marker
  \<open>openMarkers[i]\<close> is the head of the list and \<open>openMarkers[i + 1]\<close> the head of the rest.
\<close>

fun closeMarkers :: "jstr \<Rightarrow> OpenMarker list \<Rightarrow> EmbedDirective list" where
  "closeMarkers content [] = []"
| "closeMarkers content (m # rest) =
     (let searchStart = m_index m + m_length m;
          searchEnd = (case rest of [] \<Rightarrow> length content | n # _ \<Rightarrow> m_index n);
          searchRegion = substring content searchStart searchEnd;
          closeTag = closeTagOf (m_kind m);
          endIndex = (case indexOf searchRegion closeTag 0 of
                        Some closeRelIdx \<Rightarrow> int (searchStart + closeRelIdx + length closeTag)
                      | None \<Rightarrow> - 1);
          lineNumber = length (splitLines (substring content 0 (m_index m)))
      in \<lparr>kind = m_kind m,
          sourcePath = m_sourcePath m,
          symbolName = m_symbolName m,
          lineNumber = lineNumber,
          startIndex = m_index m,
          endIndex = endIndex\<rparr>
         # closeMarkers content rest)"

definition findDirectives :: "jstr \<Rightarrow> EmbedDirective list" where
  "findDirectives content = closeMarkers content (collectMarkers content 0)"

section \<open>C# symbol extraction\<close>

subsection \<open>The balanced-delimiter scan\<close>

text \<open>
  \<open>source[i]\<close>: the code unit at \<open>i\<close>, \<open>None\<close> for \<open>undefined\<close> past the end.
\<close>

definition charAt :: "jstr \<Rightarrow> nat \<Rightarrow> cu option" where
  "charAt s i = (if i < length s then Some (s ! i) else None)"

text \<open>
  The loop of \<open>findMatchingBrace\<close>, with its variables \<open>i\<close>, \<open>depth\<close>, \<open>inString\<close>,
  \<open>stringChar\<close> (a string: empty at first, then the opening quote), \<open>inLineComment\<close>,
  \<open>inBlockComment\<close> and \<open>inVerbatim\<close>. A \<open>continue\<close> is the recursive call at
  \<open>i + 1\<close>, after an \<open>i++\<close> at \<open>i + 2\<close>.
\<close>

function fmbLoop ::
  "jstr \<Rightarrow> nat \<Rightarrow> int \<Rightarrow> bool \<Rightarrow> jstr \<Rightarrow> bool \<Rightarrow> bool \<Rightarrow> bool \<Rightarrow> nat option" where
  "fmbLoop source i depth inString stringChar inLineComment inBlockComment inVerbatim =
     (if i < length source then
        (let ch = source ! i; nxt = charAt source (i + 1) in
         if inLineComment then
           fmbLoop source (i + 1) depth inString stringChar (ch \<noteq> 10) inBlockComment inVerbatim
         else if inBlockComment then
           (if ch = 42 \<and> nxt = Some 47
            then fmbLoop source (i + 2) depth inString stringChar inLineComment False inVerbatim
            else fmbLoop source (i + 1) depth inString stringChar inLineComment inBlockComment inVerbatim)
         else if inVerbatim then
           (if ch = 34 \<and> nxt = Some 34
            then fmbLoop source (i + 2) depth inString stringChar inLineComment inBlockComment inVerbatim
            else fmbLoop source (i + 1) depth inString stringChar inLineComment inBlockComment (ch \<noteq> 34))
         else if inString then
           (if ch = 92 \<and> stringChar \<noteq> [96]
            then fmbLoop source (i + 2) depth inString stringChar inLineComment inBlockComment inVerbatim
            else fmbLoop source (i + 1) depth ([ch] \<noteq> stringChar) stringChar
                   inLineComment inBlockComment inVerbatim)
         else if ch = 47 \<and> nxt = Some 47 then
           fmbLoop source (i + 2) depth inString stringChar True inBlockComment inVerbatim
         else if ch = 47 \<and> nxt = Some 42 then
           fmbLoop source (i + 2) depth inString stringChar inLineComment True inVerbatim
         else if ch = 64 \<and> nxt = Some 34 then
           fmbLoop source (i + 2) depth inString stringChar inLineComment inBlockComment True
         else if ch = 34 \<or> ch = 39 then
           fmbLoop source (i + 1) depth True [ch] inLineComment inBlockComment inVerbatim
         else
           (let depth1 = (if ch = 123 then depth + 1 else depth) in
            if ch = 125 then
              (if depth1 - 1 = 0 then Some i
               else fmbLoop source (i + 1) (depth1 - 1) inString stringChar
                      inLineComment inBlockComment inVerbatim)
            else fmbLoop source (i + 1) depth1 inString stringChar
                   inLineComment inBlockComment inVerbatim))
      else None)"
  by pat_completeness auto
termination
  by (relation "measure (\<lambda>(source, i, _). length source - i)") auto

declare fmbLoop.simps [simp del]

definition findMatchingBrace :: "jstr \<Rightarrow> nat \<Rightarrow> nat option" where
  "findMatchingBrace source openPos = fmbLoop source openPos 0 False [] False False False"

subsection \<open>The declaration patterns\<close>

text \<open>
  \<open>escapeRegex\<close> puts a backslash before every pattern metacharacter of its argument, so
  the pattern \<open>new RegExp\<close> reads from \<open>escapeRegex(s)\<close> matches \<open>s\<close> literally.
\<close>

definition escapeRegex :: "jstr \<Rightarrow> re" where
  "escapeRegex s = Lit s"

definition ws :: re where
  "ws = Cls is_space"

definition docLines :: re where
  "docLines = Star (seqs [Star ws, Lit (str ''///''), Star (Cls (\<lambda>c. c \<noteq> 10)), Lit [10]])"

definition attrLines :: re where
  "attrLines =
     Star (seqs [Star ws, Lit (str ''[''), Star (Cls (\<lambda>c. c \<noteq> 93)), Lit (str '']''), Star ws, Lit [10]])"

text \<open>
  The pattern of \<open>extractCsSymbol\<close>: group 1 is the XML doc lines and the attribute
  lines, group 2 the indentation, the modifiers, the declaration keyword, the symbol name
  and everything up to the next \<open>{\<close> (123) or \<open>;\<close> (59).
\<close>

definition declPattern :: "jstr \<Rightarrow> re" where
  "declPattern symName =
     Seq (Grp 1 (Seq docLines attrLines))
         (Grp 2 (seqs [Star (Cls (\<lambda>c. c = 32 \<or> c = 9)),
                       Star (Seq (alts [str ''public'', str ''private'', str ''protected'',
                                        str ''internal'', str ''static'', str ''abstract'',
                                        str ''sealed'', str ''partial'', str ''async'',
                                        str ''virtual'', str ''override'', str ''readonly'',
                                        str ''new''])
                                 (Plus ws)),
                       alts [str ''class'', str ''interface'', str ''struct'', str ''enum'',
                             str ''record'', str ''delegate''],
                       Plus ws,
                       escapeRegex symName,
                       Star (Cls (\<lambda>c. c \<noteq> 123 \<and> c \<noteq> 59))]))"

text \<open>
  The pattern of \<open>extractCsMethod\<close>; its return type is a run of word characters, white
  space and \<open>< > [ ] , . ?\<close>.
\<close>

definition methodPattern :: "jstr \<Rightarrow> re" where
  "methodPattern symName =
     Seq (Grp 1 docLines)
         (Grp 2 (seqs [Star (Cls (\<lambda>c. c = 32 \<or> c = 9)),
                       Star (Seq (alts [str ''public'', str ''private'', str ''protected'',
                                        str ''internal'', str ''static'', str ''abstract'',
                                        str ''sealed'', str ''partial'', str ''async'',
                                        str ''virtual'', str ''override'', str ''new''])
                                 (Plus ws)),
                       Plus (Cls (\<lambda>c. is_word c \<or> c = 60 \<or> c = 62 \<or> c = 91 \<or> c = 93
                                       \<or> c = 44 \<or> is_space c \<or> c = 46 \<or> c = 63)),
                       Plus ws,
                       escapeRegex symName,
                       Star ws,
                       Opt (seqs [Lit (str ''<''), Star (Cls (\<lambda>c. c \<noteq> 62)), Lit (str ''>'')]),
                       Star ws,
                       Lit (str ''(''),
                       Star (Cls (\<lambda>c. c \<noteq> 41)),
                       Lit (str '')''),
                       Star (Cls (\<lambda>c. c \<noteq> 123 \<and> c \<noteq> 59))]))"

subsection \<open>The extractors\<close>

definition extractCsMethod :: "jstr \<Rightarrow> jstr \<Rightarrow> jstr option" where
  "extractCsMethod source symName =
     (case reExec (methodPattern symName) source 0 of
        None \<Rightarrow> None
      | Some m \<Rightarrow>
          (let preamble = grp m 1;
               declStart = index m + length preamble - length (trimStart preamble)
           in case indexOf source (str ''{'') (index m + length (matched m)) of
                None \<Rightarrow>
                  (case indexOf source (str '';'') (index m + length (matched m)) of
                     None \<Rightarrow> None
                   | Some semi \<Rightarrow> Some (trimEnd (substring source declStart (semi + 1))))
              | Some braceStart \<Rightarrow>
                  (case findMatchingBrace source braceStart of
                     None \<Rightarrow> None
                   | Some endIdx \<Rightarrow> Some (trimEnd (substring source declStart (endIdx + 1))))))"

text \<open>
  \<open>extractCsSymbol\<close> once the source text is read. The test
  \<open>semiStart !== -1 && (braceStart === -1 || semiStart < braceStart)\<close> is the first
  branch of the case distinction.
\<close>

definition extractCsSymbolIn :: "jstr \<Rightarrow> jstr \<Rightarrow> jstr option" where
  "extractCsSymbolIn source symName =
     (case reExec (declPattern symName) source 0 of
        None \<Rightarrow> extractCsMethod source symName
      | Some m \<Rightarrow>
          (let preamble = grp m 1;
               declStart = index m + length preamble - length (trimStart preamble);
               afterMatch = index m + length (matched m);
               braceStart = indexOf source (str ''{'') afterMatch;
               semiStart = indexOf source (str '';'') afterMatch
           in if semiStart \<noteq> None \<and> (braceStart = None \<or> the semiStart < the braceStart)
              then Some (trimEnd (substring source declStart (the semiStart + 1)))
              else (case braceStart of
                      None \<Rightarrow> None
                    | Some b \<Rightarrow>
                        (case findMatchingBrace source b of
                           None \<Rightarrow> None
                         | Some endIdx \<Rightarrow>
                             Some (trimEnd (substring source declStart (endIdx + 1)))))))"

section \<open>TypeScript symbol extraction\<close>

text \<open>
  The parser is the TypeScript compiler's, not this program's: a parsed unit is taken as
  it comes from \<open>ts.createSourceFile\<close>. Of a statement the program reads its syntax
  kind, the offsets \<open>getFullStart()\<close> (where its leading trivia starts), \<open>getStart()\<close>
  and \<open>getEnd()\<close>, its \<open>name\<close> (an identifier; for a module declaration an identifier
  or a string literal; absent for an anonymous default export), the \<open>body\<close> of a module
  declaration (a block of statements, or the nested declaration of \<open>namespace A.B\<close>), and
  the names of the declarators of a variable statement (an identifier or a binding
  pattern).
\<close>

datatype NameNode = Identifier jstr | StringLiteral jstr | BindingPattern

datatype SyntaxKind =
    FunctionDeclaration | ClassDeclaration | InterfaceDeclaration | TypeAliasDeclaration
  | EnumDeclaration | ModuleDeclaration | VariableStatement | OtherStatement

datatype Node =
  Node (nodeKind: SyntaxKind) (getFullStart: nat) (getStart: nat) (getEnd: nat)
       (nodeName: "NameNode option") (nodeBody: "ModuleBody option")
       (declarations: "NameNode list")
and ModuleBody = ModuleBlock "Node list" | NestedModule Node

record SourceFile =
  getFullText :: jstr
  statements :: "Node list"

text \<open>\<open>name.text\<close>, which an identifier and a string literal have.\<close>

fun nameText :: "NameNode \<Rightarrow> jstr option" where
  "nameText (Identifier t) = Some t"
| "nameText (StringLiteral t) = Some t"
| "nameText BindingPattern = None"

definition getNodeDeclaredName :: "Node \<Rightarrow> jstr option" where
  "getNodeDeclaredName node =
     (if nodeKind node = FunctionDeclaration \<or> nodeKind node = ClassDeclaration
         \<or> nodeKind node = InterfaceDeclaration \<or> nodeKind node = TypeAliasDeclaration
         \<or> nodeKind node = EnumDeclaration \<or> nodeKind node = ModuleDeclaration
      then (case nodeName node of None \<Rightarrow> None | Some n \<Rightarrow> nameText n)
      else if nodeKind node = VariableStatement
      then (case declarations node of
              Identifier t # _ \<Rightarrow> Some t
            | _ \<Rightarrow> None)
      else None)"

definition extractNodeText :: "jstr \<Rightarrow> Node \<Rightarrow> jstr" where
  "extractNodeText source node =
     (let fullStart = getFullStart node;
          start = getStart node;
          leading = substring source fullStart start;
          commentLines =
            filter (\<lambda>l. startsWith (trim l) (str ''*'') \<or> startsWith (trim l) (str ''/'')
                        \<or> startsWith (trim l) (str ''/**''))
                   (splitLines leading);
          commentBlock = (if length commentLines > 0 then trimStart leading else []);
          body = substring source start (getEnd node)
      in (if commentBlock \<noteq> [] then commentBlock @ [10] else []) @ trimEnd body)"

text \<open>The inner loop of \<open>extractTsSymbol\<close>, over the statements of a namespace block.\<close>

fun searchInner :: "jstr \<Rightarrow> jstr \<Rightarrow> Node list \<Rightarrow> jstr option" where
  "searchInner source innerName [] = None"
| "searchInner source innerName (inner # rest) =
     (if getNodeDeclaredName inner = Some innerName then Some (extractNodeText source inner)
      else searchInner source innerName rest)"

text \<open>
  The test \<open>ts.isModuleDeclaration(stmt) && ts.isIdentifier(stmt.name) && stmt.body &&
  ts.isModuleBlock(stmt.body)\<close>: the name and the statements of such a block.
\<close>

definition namespaceBlock :: "Node \<Rightarrow> (jstr \<times> Node list) option" where
  "namespaceBlock stmt =
     (if nodeKind stmt = ModuleDeclaration
      then (case (nodeName stmt, nodeBody stmt) of
              (Some (Identifier t), Some (ModuleBlock inner)) \<Rightarrow> Some (t, inner)
            | _ \<Rightarrow> None)
      else None)"

text \<open>The outer loop of \<open>extractTsSymbol\<close>, over the top-level statements.\<close>

fun searchStatements :: "jstr \<Rightarrow> jstr \<Rightarrow> Node list \<Rightarrow> jstr option" where
  "searchStatements source symName [] = None"
| "searchStatements source symName (stmt # rest) =
     (if getNodeDeclaredName stmt = Some symName then Some (extractNodeText source stmt)
      else (case namespaceBlock stmt of
              None \<Rightarrow> searchStatements source symName rest
            | Some (t, inner) \<Rightarrow>
                if startsWith symName (t @ str ''.'')
                then (case searchInner source (drop (length t + 1) symName) inner of
                        Some found \<Rightarrow> Some found
                      | None \<Rightarrow> searchStatements source symName rest)
                else searchStatements source symName rest))"

section \<open>Files and caches\<close>

text \<open>
  What the program asks of its collaborators: the files that exist with their text
  (\<open>fs.existsSync\<close>, \<open>fs.readFileSync\<close>), the statements \<open>ts.createSourceFile\<close> parses
  from a path and a text, and \<open>path.dirname\<close> and \<open>path.resolve\<close>. A read that throws
  aborts the run and is outside the model.
\<close>

record Env =
  files :: "jstr \<rightharpoonup> jstr"
  createSourceFile :: "jstr \<Rightarrow> jstr \<Rightarrow> Node list"
  path_dirname :: "jstr \<Rightarrow> jstr"
  path_resolve :: "jstr list \<Rightarrow> jstr"

text \<open>The two module-level maps \<open>tsFileCache\<close> and \<open>csFileCache\<close>, passed as state.\<close>

record Caches =
  tsFileCache :: "jstr \<rightharpoonup> SourceFile"
  csFileCache :: "jstr \<rightharpoonup> jstr"

definition getTsSourceFile :: "Env \<Rightarrow> jstr \<Rightarrow> Caches \<Rightarrow> SourceFile option \<times> Caches" where
  "getTsSourceFile env filePath caches =
     (case tsFileCache caches filePath of
        Some sf \<Rightarrow> (Some sf, caches)
      | None \<Rightarrow>
          (case files env filePath of
             None \<Rightarrow> (None, caches)
           | Some source \<Rightarrow>
               (let sf = \<lparr>getFullText = source, statements = createSourceFile env filePath source\<rparr>
                in (Some sf, caches\<lparr>tsFileCache := (tsFileCache caches)(filePath \<mapsto> sf)\<rparr>))))"

definition extractTsSymbol :: "Env \<Rightarrow> jstr \<Rightarrow> jstr \<Rightarrow> Caches \<Rightarrow> jstr option \<times> Caches" where
  "extractTsSymbol env filePath symName caches =
     (case getTsSourceFile env filePath caches of
        (None, caches') \<Rightarrow> (None, caches')
      | (Some sf, caches') \<Rightarrow>
          (searchStatements (getFullText sf) symName (statements sf), caches'))"

definition getCsSource :: "Env \<Rightarrow> jstr \<Rightarrow> Caches \<Rightarrow> jstr option \<times> Caches" where
  "getCsSource env filePath caches =
     (case csFileCache caches filePath of
        Some source \<Rightarrow> (Some source, caches)
      | None \<Rightarrow>
          (case files env filePath of
             None \<Rightarrow> (None, caches)
           | Some source \<Rightarrow>
               (Some source, caches\<lparr>csFileCache := (csFileCache caches)(filePath \<mapsto> source)\<rparr>)))"

definition extractCsSymbol :: "Env \<Rightarrow> jstr \<Rightarrow> jstr \<Rightarrow> Caches \<Rightarrow> jstr option \<times> Caches" where
  "extractCsSymbol env filePath symName caches =
     (case getCsSource env filePath caches of
        (None, caches') \<Rightarrow> (None, caches')
      | (Some source, caches') \<Rightarrow> (extractCsSymbolIn source symName, caches'))"

section \<open>Resolve and replace\<close>

record EmbedResult =
  directive :: EmbedDirective
  code :: "jstr option"
  error :: "jstr option"

record ErrorReport =
  e_mdFile :: jstr
  e_lineNumber :: nat
  e_reason :: jstr
  e_sourcePath :: jstr
  e_symbolName :: jstr

definition resolveEmbed :: "Env \<Rightarrow> EmbedDirective \<Rightarrow> jstr \<Rightarrow> Caches \<Rightarrow> EmbedResult \<times> Caches" where
  "resolveEmbed env dir mdFilePath caches =
     (let mdDir = path_dirname env mdFilePath;
          absSource = path_resolve env [mdDir, sourcePath dir]
      in if files env absSource = None
         then (\<lparr>directive = dir, code = None,
                error = Some (str ''File not found: '' @ absSource)\<rparr>, caches)
         else (case (if kind dir = Ts then extractTsSymbol else extractCsSymbol)
                      env absSource (symbolName dir) caches of
                 (None, caches') \<Rightarrow>
                   (\<lparr>directive = dir, code = None,
                     error = Some (str ''Symbol '' @ [39] @ symbolName dir @ [39]
                                   @ str '' not found in '' @ absSource)\<rparr>, caches')
               | (Some t, caches') \<Rightarrow>
                   (\<lparr>directive = dir, code = Some t, error = None\<rparr>, caches')))"

text \<open>
  \<open>if (resolved.error)\<close>: neither \<open>null\<close> nor the empty string. In the array joined into
  the code block, \<open>null\<close> reads as the empty string.
\<close>

fun truthy :: "jstr option \<Rightarrow> bool" where
  "truthy None = False"
| "truthy (Some s) = (s \<noteq> [])"

fun orEmpty :: "jstr option \<Rightarrow> jstr" where
  "orEmpty None = []"
| "orEmpty (Some s) = s"

text \<open>
  The pattern rebuilt for a directive:
  \<^verbatim>\<open><!--\s*TAG\s*:\s*PATH#SYMBOL\s*-->\<close>, the three parts escaped.
\<close>

definition openMarkerRe :: "jstr \<Rightarrow> EmbedDirective \<Rightarrow> re" where
  "openMarkerRe tag dir =
     seqs [Lit (str ''<!--''), Star ws, escapeRegex tag, Star ws, Lit (str '':''), Star ws,
           escapeRegex (sourcePath dir), Lit (str ''#''), escapeRegex (symbolName dir),
           Star ws, Lit (str ''-->'')]"

text \<open>The generated block; the dash of its second line is U+2014.\<close>

definition codeBlockOf :: "jstr \<Rightarrow> jstr \<Rightarrow> jstr option \<Rightarrow> jstr" where
  "codeBlockOf lang tag resolvedCode =
     joinLines [str ''```'' @ lang,
                str ''// @generated by embed-sync '' @ [8212] @ str '' do not edit'',
                orEmpty resolvedCode,
                str ''```'',
                str ''<!-- /'' @ tag @ str '' -->'']"

text \<open>
  One iteration of \<open>for (const dir of sorted)\<close>; the state is \<open>result\<close>, \<open>errors\<close> and the
  caches.
\<close>

definition applyStep ::
  "Env \<Rightarrow> jstr \<Rightarrow> jstr \<times> ErrorReport list \<times> Caches \<Rightarrow> EmbedDirective
     \<Rightarrow> jstr \<times> ErrorReport list \<times> Caches" where
  "applyStep env mdFilePath st dir =
     (case st of (result, errors, caches) \<Rightarrow>
        (case resolveEmbed env dir mdFilePath caches of (resolved, caches') \<Rightarrow>
           (let lang = (if kind dir = Ts then str ''ts'' else str ''csharp'');
                tag = kindStr (kind dir) @ str ''-embed''
            in if truthy (error resolved)
               then (result,
                     errors @ [\<lparr>e_mdFile = path_resolve env [mdFilePath],
                                e_lineNumber = lineNumber dir,
                                e_reason = orEmpty (error resolved),
                                e_sourcePath = sourcePath dir,
                                e_symbolName = symbolName dir\<rparr>],
                     caches')
               else (case reExec (openMarkerRe tag dir) (substringFrom result (startIndex dir)) 0 of
                       None \<Rightarrow> (result, errors, caches')
                     | Some openMatch \<Rightarrow>
                         (let absOpenEnd = startIndex dir + index openMatch + length (matched openMatch);
                              replaceEnd = (if endIndex dir \<noteq> - 1 then nat (endIndex dir) else absOpenEnd);
                              before = substring result 0 absOpenEnd;
                              after = substringFrom result replaceEnd;
                              insertion = [10] @ codeBlockOf lang tag (code resolved)
                          in (before @ insertion @ after, errors, caches'))))))"

text \<open>
  \<open>[...directives].sort((a, b) => b.startIndex - a.startIndex)\<close>: a stable sort by
  descending \<open>startIndex\<close>.
\<close>

definition sortDescending :: "EmbedDirective list \<Rightarrow> EmbedDirective list" where
  "sortDescending ds = sort_key (\<lambda>d. - int (startIndex d)) ds"

definition applyEmbeds ::
  "Env \<Rightarrow> jstr \<Rightarrow> jstr \<Rightarrow> Caches \<Rightarrow> jstr \<times> ErrorReport list \<times> Caches" where
  "applyEmbeds env content mdFilePath caches =
     (let directives = findDirectives content
      in if length directives = 0 then (content, [], caches)
         else foldl (applyStep env mdFilePath) (content, [], caches) (sortDescending directives))"

text \<open>The \<open>output\<close> and the \<open>errors\<close> of the value returned.\<close>

definition outputOf :: "jstr \<times> ErrorReport list \<times> Caches \<Rightarrow> jstr" where
  "outputOf r = fst r"

definition errorsOf :: "jstr \<times> ErrorReport list \<times> Caches \<Rightarrow> ErrorReport list" where
  "errorsOf r = fst (snd r)"

section \<open>Concrete inputs\<close>

text \<open>
  A file system with the single file \<open>/docs/NAME\<close>, documents in \<open>/docs\<close>; no TypeScript
  source is parsed in it. A run starts with empty caches.
\<close>

definition docsEnv :: "jstr \<Rightarrow> jstr \<Rightarrow> Env" where
  "docsEnv name source =
     \<lparr>files = [str ''/docs/'' @ name \<mapsto> source],
      createSourceFile = (\<lambda>_ _. []),
      path_dirname = (\<lambda>_. str ''/docs''),
      path_resolve = (\<lambda>parts. case parts of [d, p] \<Rightarrow> d @ str ''/'' @ p | [p] \<Rightarrow> p | _ \<Rightarrow> [])\<rparr>"

definition noCaches :: Caches where
  "noCaches = \<lparr>tsFileCache = Map.empty, csFileCache = Map.empty\<rparr>"

text \<open>The equations that evaluate the program on a concrete input.\<close>

lemmas ev =
  findDirectives_def collectMarkers.simps reExec_def markerRe_def str_def is_space_def Plus_def
  ms.simps grp_def startsWith_def trim_def trimStart_def trimEnd_def closeTagOf_def
  substring_def indexOf_def Let_def declPattern_def methodPattern_def extractCsMethod_def
  extractCsSymbolIn_def escapeRegex_def ws_def docLines_def attrLines_def
  findMatchingBrace_def fmbLoop.simps charAt_def is_word_def docsEnv_def noCaches_def
  applyEmbeds_def applyStep_def resolveEmbed_def extractCsSymbol_def getCsSource_def
  openMarkerRe_def codeBlockOf_def sortDescending_def substringFrom_def outputOf_def
  errorsOf_def

section \<open>The type-level pattern has no boundary after the symbol name\<close>

text \<open>
  Claim C10. The pattern of \<open>extractCsSymbol\<close> continues after the symbol name with
  \<open>[^{;]*\<close>, so a declaration whose name only starts with the requested name matches:
  in a source that holds nothing but \<open>class FooBar { }\<close>, the symbol \<open>Foo\<close> is found, and
  the text returned is that of \<open>FooBar\<close>.
\<close>

theorem lexical_prefix_match:
  "fst (extractCsSymbol (docsEnv (str ''a.cs'') (str ''class FooBar { }'')) (str ''/docs/a.cs'')
          (str ''Foo'') noCaches)
     = Some (str ''class FooBar { }'')"
  by (simp add: ev)

section \<open>A marker that does not match again is skipped\<close>

text \<open>
  Claim C9. When a directive resolves without error and the pattern rebuilt from its
  tag, path and symbol finds no match in the current text from its \<open>startIndex\<close> on, the
  iteration leaves the text and the error list as they were.
\<close>

theorem rematch_failure_skips:
  assumes "resolveEmbed env dir mdFilePath caches = (resolved, caches')"
    and "\<not> truthy (error resolved)"
    and "reExec (openMarkerRe (kindStr (kind dir) @ str ''-embed'') dir)
           (substringFrom result (startIndex dir)) 0 = None"
  shows "applyStep env mdFilePath (result, errors, caches) dir = (result, errors, caches')"
  using assms by (simp add: applyStep_def Let_def)

text \<open>
  The witness: a marker with a space between path and \<open>#\<close>. The scanner trims the path, the
  rebuilt pattern wants the \<open>#\<close> right after it, and the document comes back unchanged with
  no error.
\<close>

definition skipDoc :: jstr where
  "skipDoc = str ''<!-- cs-embed: a.cs #Foo -->''"

definition skipDir :: EmbedDirective where
  "skipDir = \<lparr>kind = Cs, sourcePath = str ''a.cs'', symbolName = str ''Foo'', lineNumber = 1,
              startIndex = 0, endIndex = - 1\<rparr>"

lemma skipDoc_directives: "findDirectives skipDoc = [skipDir]"
  by (simp add: ev skipDoc_def skipDir_def)

lemma skipDir_resolves:
  "resolveEmbed (docsEnv (str ''a.cs'') (str ''class Foo { }'')) skipDir (str ''/docs/x.md'') noCaches
     = (\<lparr>directive = skipDir, code = Some (str ''class Foo { }''), error = None\<rparr>,
        \<lparr>tsFileCache = Map.empty, csFileCache = [str ''/docs/a.cs'' \<mapsto> str ''class Foo { }'']\<rparr>)"
  by (simp add: ev skipDir_def)

lemma skipDir_no_rematch:
  "reExec (openMarkerRe (kindStr (kind skipDir) @ str ''-embed'') skipDir)
      (substringFrom skipDoc (startIndex skipDir)) 0 = None"
  by (simp add: ev skipDoc_def skipDir_def)

theorem rematch_failure_skips_witness:
  "findDirectives skipDoc = [skipDir]
   \<and> \<not> truthy (error (fst (resolveEmbed (docsEnv (str ''a.cs'') (str ''class Foo { }'')) skipDir
                               (str ''/docs/x.md'') noCaches)))
   \<and> reExec (openMarkerRe (kindStr (kind skipDir) @ str ''-embed'') skipDir)
        (substringFrom skipDoc (startIndex skipDir)) 0 = None
   \<and> applyStep (docsEnv (str ''a.cs'') (str ''class Foo { }'')) (str ''/docs/x.md'')
         (skipDoc, [], noCaches) skipDir
       = (skipDoc, [],
          \<lparr>tsFileCache = Map.empty, csFileCache = [str ''/docs/a.cs'' \<mapsto> str ''class Foo { }'']\<rparr>)"
  using rematch_failure_skips[OF skipDir_resolves _ skipDir_no_rematch, of "[]"]
    skipDoc_directives skipDir_resolves skipDir_no_rematch
  by simp

section \<open>The balanced-delimiter scan follows the lexical modes\<close>

text \<open>
  The scanner as the specification words it: one lexical mode at a time (none, line
  comment, block comment, quoted string with backslash escapes, verbatim string with
  doubled quotes), entered and left code unit by code unit; braces count only in no mode;
  the scan answers the offset where the depth, 1 after the opening brace, comes back to
  zero, and \<open>None\<close> at the end of the text. \<open>scanBraces m d i cs\<close> reads the rest \<open>cs\<close> of the
  text, which starts at offset \<open>i\<close>, in mode \<open>m\<close> at depth \<open>d\<close>.
\<close>

datatype LexMode = Code | LineComment | BlockComment | Quoted cu | Verbatim

definition headOf :: "jstr \<Rightarrow> cu option" where
  "headOf cs = (case cs of [] \<Rightarrow> None | n # _ \<Rightarrow> Some n)"

fun scanBraces :: "LexMode \<Rightarrow> nat \<Rightarrow> nat \<Rightarrow> jstr \<Rightarrow> nat option" where
  "scanBraces m d i [] = None"
| "scanBraces LineComment d i (c # cs) =
     scanBraces (if c = 10 then Code else LineComment) d (i + 1) cs"
| "scanBraces BlockComment d i (c # cs) =
     (if c = 42 \<and> headOf cs = Some 47 then scanBraces Code d (i + 2) (tl cs)
      else scanBraces BlockComment d (i + 1) cs)"
| "scanBraces Verbatim d i (c # cs) =
     (if c = 34 \<and> headOf cs = Some 34 then scanBraces Verbatim d (i + 2) (tl cs)
      else scanBraces (if c = 34 then Code else Verbatim) d (i + 1) cs)"
| "scanBraces (Quoted q) d i (c # cs) =
     (if c = 92 then scanBraces (Quoted q) d (i + 2) (tl cs)
      else scanBraces (if c = q then Code else Quoted q) d (i + 1) cs)"
| "scanBraces Code d i (c # cs) =
     (if c = 47 \<and> headOf cs = Some 47 then scanBraces LineComment d (i + 2) (tl cs)
      else if c = 47 \<and> headOf cs = Some 42 then scanBraces BlockComment d (i + 2) (tl cs)
      else if c = 64 \<and> headOf cs = Some 34 then scanBraces Verbatim d (i + 2) (tl cs)
      else if c = 34 \<or> c = 39 then scanBraces (Quoted c) d (i + 1) cs
      else if c = 123 then scanBraces Code (d + 1) (i + 1) cs
      else if c = 125 then (if d = 1 then Some i else scanBraces Code (d - 1) (i + 1) cs)
      else scanBraces Code d (i + 1) cs)"


lemma charAt_drop: "charAt s j = headOf (drop j s)"
  by (auto simp: charAt_def headOf_def hd_drop_conv_nth split: list.splits
      dest: arg_cong[where f=hd])

lemma fmbLoop_scan:
  "1 \<le> D \<Longrightarrow>
     fmbLoop source i D False sc False False False = scanBraces Code (nat D) i (drop i source)"
  "1 \<le> D \<Longrightarrow>
     fmbLoop source i D False sc True False False = scanBraces LineComment (nat D) i (drop i source)"
  "1 \<le> D \<Longrightarrow>
     fmbLoop source i D False sc False True False = scanBraces BlockComment (nat D) i (drop i source)"
  "1 \<le> D \<Longrightarrow> q = 34 \<or> q = 39 \<Longrightarrow>
     fmbLoop source i D True [q] False False False = scanBraces (Quoted q) (nat D) i (drop i source)"
  "1 \<le> D \<Longrightarrow>
     fmbLoop source i D False sc False False True = scanBraces Verbatim (nat D) i (drop i source)"
proof (induction "length source - i" arbitrary: i D sc q rule: less_induct)
  case less
  have dr: "i < length source \<Longrightarrow> drop i source = source ! i # drop (Suc i) source"
    by (simp add: Cons_nth_drop_Suc)
  have tl: "tl (drop (Suc i) source) = drop (Suc (Suc i)) source"
    by (simp add: drop_Suc tl_drop)
  have m1: "i < length source \<Longrightarrow> length source - Suc i < length source - i" by simp
  have m2: "i < length source \<Longrightarrow> length source - Suc (Suc i) < length source - i" by simp
  note ih1 = less.hyps[OF m1]
  note ih2 = less.hyps[OF m2]
  {
    case 1
    show ?case
    proof (cases "i < length source")
      case False
      then show ?thesis by (subst fmbLoop.simps) simp
    next
      case True
      show ?thesis
        apply (subst fmbLoop.simps)
        using True 1
        by (auto simp add: dr Let_def charAt_drop tl ih1 ih2 nat_add_distrib nat_diff_distrib)
    qed
  next
    case 2
    show ?case
    proof (cases "i < length source")
      case False
      then show ?thesis by (subst fmbLoop.simps) simp
    next
      case True
      show ?thesis
        apply (subst fmbLoop.simps)
        using True 2
        by (auto simp add: dr Let_def charAt_drop tl ih1 ih2 nat_add_distrib nat_diff_distrib)
    qed
  next
    case 3
    show ?case
    proof (cases "i < length source")
      case False
      then show ?thesis by (subst fmbLoop.simps) simp
    next
      case True
      show ?thesis
        apply (subst fmbLoop.simps)
        using True 3
        by (auto simp add: dr Let_def charAt_drop tl ih1 ih2 nat_add_distrib nat_diff_distrib)
    qed
  next
    case 4
    show ?case
    proof (cases "i < length source")
      case False
      then show ?thesis by (subst fmbLoop.simps) simp
    next
      case True
      show ?thesis
        apply (subst fmbLoop.simps)
        using True 4
        by (auto simp add: dr Let_def charAt_drop tl ih1 ih2 nat_add_distrib nat_diff_distrib)
    qed
  next
    case 5
    show ?case
    proof (cases "i < length source")
      case False
      then show ?thesis by (subst fmbLoop.simps) simp
    next
      case True
      show ?thesis
        apply (subst fmbLoop.simps)
        using True 5
        by (auto simp add: dr Let_def charAt_drop tl ih1 ih2 nat_add_distrib nat_diff_distrib)
    qed
  }
qed


lemma scanBraces_closing:
  "scanBraces m d i cs = Some e \<Longrightarrow> i \<le> e \<and> e < i + length cs \<and> cs ! (e - i) = 125"
proof (induction m d i cs rule: scanBraces.induct)
  case (5 q d i c cs)
  show ?case
  proof (cases cs)
    case Nil
    with 5 show ?thesis by (auto split: if_splits)
  next
    case (Cons n rest)
    with 5 show ?thesis by (auto split: if_splits simp: nth_Cons' Suc_diff_le)
  qed
qed (auto split: if_splits list.splits simp: headOf_def nth_Cons' Suc_diff_le)


text \<open>
  Claim C6. From an opening brace, the loop of \<open>findMatchingBrace\<close> computes what the mode
  scanner computes from the next offset at depth 1: braces inside a comment or a string
  are not counted, the answer is the offset of the brace that brings the depth to zero,
  and \<open>None\<close> when the text ends first. The offset answered lies after the opening brace
  and holds a closing brace.
\<close>

theorem findMatchingBrace_scans_modes:
  assumes "openPos < length source" and "source ! openPos = 123"
  shows "findMatchingBrace source openPos
           = scanBraces Code 1 (Suc openPos) (drop (Suc openPos) source)
         \<and> (\<forall>e. findMatchingBrace source openPos = Some e
                \<longrightarrow> openPos < e \<and> e < length source \<and> source ! e = 125)"
proof -
  have "findMatchingBrace source openPos = fmbLoop source (Suc openPos) 1 False [] False False False"
    unfolding findMatchingBrace_def
    by (subst fmbLoop.simps) (use assms in \<open>simp add: Let_def\<close>)
  also have "\<dots> = scanBraces Code (nat 1) (Suc openPos) (drop (Suc openPos) source)"
    by (rule fmbLoop_scan(1)) simp
  finally have eq: "findMatchingBrace source openPos
      = scanBraces Code 1 (Suc openPos) (drop (Suc openPos) source)" by simp
  have "openPos < e \<and> e < length source \<and> source ! e = 125"
    if "findMatchingBrace source openPos = Some e" for e
  proof -
    from that eq have "scanBraces Code 1 (Suc openPos) (drop (Suc openPos) source) = Some e"
      by simp
    from scanBraces_closing[OF this] assms(1)
    have "Suc openPos \<le> e" "e < length source"
      "drop (Suc openPos) source ! (e - Suc openPos) = 125" by auto
    then show ?thesis by simp
  qed
  with eq show ?thesis by blast
qed

text \<open>
  The witness is the scenario of the specification: a body whose string literal holds an
  unbalanced closing brace, \<^verbatim>\<open>{ s = "}"; }\<close>. The scan ends at offset 11, the last brace.
\<close>

definition braceInString :: jstr where
  "braceInString = str ''{ s = '' @ [34, 125, 34] @ str ''; }''"

theorem findMatchingBrace_scans_modes_witness:
  "0 < length braceInString \<and> braceInString ! 0 = 123
   \<and> findMatchingBrace braceInString 0 = scanBraces Code 1 (Suc 0) (drop (Suc 0) braceInString)
   \<and> findMatchingBrace braceInString 0 = Some 11
   \<and> braceInString ! 11 = 125"
proof -
  have a: "0 < length braceInString" and b: "braceInString ! 0 = 123"
    by (simp_all add: braceInString_def str_def)
  have c: "scanBraces Code 1 (Suc 0) (drop (Suc 0) braceInString) = Some 11"
    by (simp add: braceInString_def str_def headOf_def)
  from findMatchingBrace_scans_modes[OF a b] a b c show ?thesis by simp
qed

section \<open>The closing tag is searched in the window of its marker\<close>

text \<open>\<open>occursAt p s j\<close>: the text \<open>p\<close> stands in \<open>s\<close> at offset \<open>j\<close>, wholly inside \<open>s\<close>.\<close>

definition occursAt :: "jstr \<Rightarrow> jstr \<Rightarrow> nat \<Rightarrow> bool" where
  "occursAt p s j = (j + length p \<le> length s \<and> take (length p) (drop j s) = p)"

lemma occursAt_0: "occursAt p s 0 = (take (length p) s = p)"
proof -
  have "take (length p) s = p \<Longrightarrow> length p \<le> length s"
  proof -
    assume "take (length p) s = p"
    then have "length (take (length p) s) = length p" by simp
    then show ?thesis by simp
  qed
  then show ?thesis by (auto simp: occursAt_def)
qed

lemma occursAt_Suc: "occursAt p (x # xs) (Suc j) = occursAt p xs j"
  by (simp add: occursAt_def)

lemma findSub_Some:
  "findSub p s = Some k \<Longrightarrow> occursAt p s k \<and> (\<forall>j<k. \<not> occursAt p s j)"
proof (induction s arbitrary: k)
  case Nil
  then show ?case by (auto simp: occursAt_def split: if_splits)
next
  case (Cons x xs)
  show ?case
  proof (cases "take (length p) (x # xs) = p")
    case True
    with Cons.prems have "k = 0" by simp
    with True show ?thesis by (simp add: occursAt_0)
  next
    case False
    with Cons.prems obtain k' where k: "k = Suc k'" and f: "findSub p xs = Some k'" by auto
    from Cons.IH[OF f] have ih: "occursAt p xs k'" "\<forall>j<k'. \<not> occursAt p xs j" by auto
    have "\<not> occursAt p (x # xs) j" if "j < k" for j
    proof (cases j)
      case 0
      with False show ?thesis by (simp add: occursAt_0)
    next
      case (Suc j')
      with that k ih(2) show ?thesis by (simp add: occursAt_Suc)
    qed
    with ih(1) k show ?thesis by (simp add: occursAt_Suc)
  qed
qed

lemma findSub_None: "findSub p s = None \<Longrightarrow> \<not> occursAt p s j"
proof (induction s arbitrary: j)
  case Nil
  then show ?case by (auto simp: occursAt_def split: if_splits)
next
  case (Cons x xs)
  from Cons.prems have nf: "take (length p) (x # xs) \<noteq> p" and f: "findSub p xs = None"
    by (auto split: if_splits)
  show ?case
  proof (cases j)
    case 0
    with nf show ?thesis by (simp add: occursAt_0)
  next
    case (Suc j')
    with Cons.IH[OF f] show ?thesis by (simp add: occursAt_Suc)
  qed
qed

lemma occursAt_window:
  assumes "a \<le> b" "b \<le> length s"
  shows "occursAt p (take (b - a) (drop a s)) j = (a + j + length p \<le> b \<and> occursAt p s (a + j))"
proof (cases "a + j + length p \<le> b")
  case False
  with assms show ?thesis by (auto simp: occursAt_def)
next
  case True
  have "drop j (take (b - a) (drop a s)) = take (b - a - j) (drop (a + j) s)"
    by (simp add: drop_take add.commute)
  moreover have "length p \<le> b - a - j" using True by simp
  ultimately have "take (length p) (drop j (take (b - a) (drop a s))) = take (length p) (drop (a + j) s)"
    by (simp add: min_absorb1)
  with True assms show ?thesis by (auto simp: occursAt_def)
qed


text \<open>
  The markers of the first pass lie one after the other: each is not empty and starts at
  or after the end of the one before.
\<close>

fun spaced :: "nat \<Rightarrow> nat \<Rightarrow> OpenMarker list \<Rightarrow> bool" where
  "spaced lo hi [] = True"
| "spaced lo hi (m # rest) =
     (lo \<le> m_index m \<and> 0 < m_length m \<and> m_index m + m_length m \<le> hi
      \<and> spaced (m_index m + m_length m) hi rest)"

text \<open>
  The end of the window of the directive at position \<open>i\<close>: the start of the next opening
  marker, or the end of the document.
\<close>

definition windowEnd :: "jstr \<Rightarrow> EmbedDirective list \<Rightarrow> nat \<Rightarrow> nat" where
  "windowEnd content ds i = (if Suc i < length ds then startIndex (ds ! Suc i) else length content)"

lemma collectMarkers_spaced: "spaced k (length content) (collectMarkers content k)"
proof (induction content k rule: collectMarkers.induct)
  case (1 content lastIndex)
  show ?case
  proof (cases "reExec markerRe content lastIndex")
    case None
    then show ?thesis by (subst collectMarkers.simps) simp
  next
    case (Some m)
    from reExec_bounds[OF Some] markerRe_nonempty[OF Some] "1.IH"[OF Some]
    show ?thesis by (subst collectMarkers.simps) (simp add: Some)
  qed
qed

lemma spaced_mono: "spaced lo hi mks \<Longrightarrow> lo' \<le> lo \<Longrightarrow> spaced lo' hi mks"
  by (cases mks) auto

lemma length_closeMarkers: "length (closeMarkers content mks) = length mks"
  by (induction mks) (simp_all add: Let_def)

lemma startIndex_closeMarkers:
  "i < length mks \<Longrightarrow> startIndex (closeMarkers content mks ! i) = m_index (mks ! i)"
proof (induction mks arbitrary: i)
  case Nil
  then show ?case by simp
next
  case (Cons m rest)
  then show ?case by (cases i) (simp_all add: Let_def)
qed

lemma kind_closeMarkers:
  "i < length mks \<Longrightarrow> kind (closeMarkers content mks ! i) = m_kind (mks ! i)"
proof (induction mks arbitrary: i)
  case Nil
  then show ?case by simp
next
  case (Cons m rest)
  then show ?case by (cases i) (simp_all add: Let_def)
qed

text \<open>The bounds of the window of the marker at position i.\<close>

lemma spaced_window:
  "spaced lo (length content) mks \<Longrightarrow> i < length mks \<Longrightarrow>
     lo \<le> m_index (mks ! i) \<and> 0 < m_length (mks ! i)
     \<and> m_index (mks ! i) + m_length (mks ! i) \<le> windowEnd content (closeMarkers content mks) i
     \<and> windowEnd content (closeMarkers content mks) i \<le> length content"
proof (induction mks arbitrary: i lo)
  case Nil
  then show ?case by simp
next
  case (Cons m rest)
  show ?case
  proof (cases i)
    case 0
    show ?thesis
    proof (cases rest)
      case Nil
      with 0 Cons.prems show ?thesis by (simp add: windowEnd_def Let_def)
    next
      case (Cons n rest')
      with 0 Cons.prems show ?thesis by (simp add: windowEnd_def Let_def)
    qed
  next
    case (Suc i')
    with Cons.prems have sp: "spaced (m_index m + m_length m) (length content) rest"
      and i': "i' < length rest" by simp_all
    from Cons.IH[OF sp i'] Cons.prems(1) Suc i'
    show ?thesis by (auto simp: windowEnd_def Let_def length_closeMarkers)
  qed
qed

text \<open>The closing offset of the marker at position i.\<close>

lemma endIndex_closeMarkers:
  "i < length mks \<Longrightarrow>
     endIndex (closeMarkers content mks ! i) =
       (case indexOf (substring content (m_index (mks ! i) + m_length (mks ! i))
                        (windowEnd content (closeMarkers content mks) i))
                     (closeTagOf (m_kind (mks ! i))) 0 of
          Some r \<Rightarrow> int (m_index (mks ! i) + m_length (mks ! i) + r + length (closeTagOf (m_kind (mks ! i))))
        | None \<Rightarrow> - 1)"
proof (induction mks arbitrary: i)
  case Nil
  then show ?case by simp
next
  case (Cons m rest)
  show ?case
  proof (cases i)
    case 0
    then show ?thesis
      by (cases rest) (simp_all add: windowEnd_def Let_def cong: option.case_cong)
  next
    case (Suc i')
    with Cons show ?thesis by (simp add: windowEnd_def Let_def cong: option.case_cong)
  qed
qed


lemma substring_window:
  "a \<le> b \<Longrightarrow> b \<le> length s \<Longrightarrow> substring s a b = take (b - a) (drop a s)"
  by (simp add: substring_def Let_def min_absorb1 max_absorb2)

lemma indexOf_0: "indexOf s p 0 = findSub p s"
  by (simp add: indexOf_def option.map_ident)

text \<open>
  Claim C3. For the directive at position \<open>i\<close> the window runs from the end of its
  opening marker to \<open>windowEnd\<close>. Its \<open>endIndex\<close> is \<open>-1\<close> exactly when its closing tag
  stands nowhere wholly inside the window; otherwise \<open>endIndex\<close> is the end of the first
  occurrence of the tag inside the window, so it never passes the start of the next
  opening marker: a closing tag after that marker is not taken.
\<close>

theorem close_tag_window:
  assumes "i < length (findDirectives content)"
  shows "let ds = findDirectives content;
             d = ds ! i;
             mk = collectMarkers content 0 ! i;
             searchStart = startIndex d + m_length mk;
             searchEnd = windowEnd content ds i;
             tag = closeTagOf (kind d)
         in startIndex d = m_index mk \<and> startIndex d < searchStart
            \<and> searchStart \<le> searchEnd \<and> searchEnd \<le> length content
            \<and> ((endIndex d = - 1)
                 = (\<forall>j. searchStart \<le> j \<and> j + length tag \<le> searchEnd \<longrightarrow> \<not> occursAt tag content j))
            \<and> (endIndex d \<noteq> - 1 \<longrightarrow>
                  (\<exists>j. endIndex d = int (j + length tag)
                       \<and> searchStart \<le> j \<and> j + length tag \<le> searchEnd
                       \<and> occursAt tag content j
                       \<and> (\<forall>j'. searchStart \<le> j' \<and> j' < j \<longrightarrow> \<not> occursAt tag content j')))"
proof -
  define mks where "mks = collectMarkers content 0"
  define ds where "ds = findDirectives content"
  define d where "d = ds ! i"
  define mk where "mk = mks ! i"
  define a where "a = m_index mk + m_length mk"
  define b where "b = windowEnd content ds i"
  define tag where "tag = closeTagOf (kind d)"
  have ds: "ds = closeMarkers content mks" by (simp add: ds_def mks_def findDirectives_def)
  have i: "i < length mks" using assms by (simp add: findDirectives_def mks_def length_closeMarkers)
  have sp: "spaced 0 (length content) mks" unfolding mks_def by (rule collectMarkers_spaced)
  from spaced_window[OF sp i] have w: "0 < m_length mk" "a \<le> b" "b \<le> length content"
    by (simp_all add: a_def b_def mk_def ds)
  have st: "startIndex d = m_index mk"
    by (simp add: d_def ds mk_def startIndex_closeMarkers[OF i])
  have kd: "kind d = m_kind mk"
    by (simp add: d_def ds mk_def kind_closeMarkers[OF i])
  have sub: "substring content a b = take (b - a) (drop a content)"
    by (rule substring_window[OF w(2) w(3)])
  have "endIndex d = (case indexOf (substring content a b) tag 0 of
                           Some r \<Rightarrow> int (a + r + length tag) | None \<Rightarrow> - 1)"
    unfolding d_def ds a_def b_def tag_def mk_def
    by (simp add: endIndex_closeMarkers[OF i] kind_closeMarkers[OF i] cong: option.case_cong)
  then have e: "endIndex d = (case findSub tag (take (b - a) (drop a content)) of
                           Some r \<Rightarrow> int (a + r + length tag) | None \<Rightarrow> - 1)"
    by (simp only: sub indexOf_0)
  have win: "occursAt tag (take (b - a) (drop a content)) j
               = (a + j + length tag \<le> b \<and> occursAt tag content (a + j))" for j
    by (rule occursAt_window[OF w(2) w(3)])
  have none: "(endIndex d = - 1)
      = (\<forall>j. a \<le> j \<and> j + length tag \<le> b \<longrightarrow> \<not> occursAt tag content j)"
  proof (cases "findSub tag (take (b - a) (drop a content))")
    case None
    have "\<not> occursAt tag content j" if "a \<le> j" "j + length tag \<le> b" for j
    proof -
      from findSub_None[OF None, of "j - a"] win[of "j - a"] that show ?thesis by simp
    qed
    with None e show ?thesis by simp
  next
    case (Some r)
    from findSub_Some[OF Some] win[of r]
    have "a \<le> a + r" "a + r + length tag \<le> b" "occursAt tag content (a + r)" by simp_all
    then have "\<exists>j. a \<le> j \<and> j + length tag \<le> b \<and> occursAt tag content j" by blast
    with Some e show ?thesis by auto
  qed
  have some: "\<exists>j. endIndex d = int (j + length tag) \<and> a \<le> j \<and> j + length tag \<le> b
                \<and> occursAt tag content j
                \<and> (\<forall>j'. a \<le> j' \<and> j' < j \<longrightarrow> \<not> occursAt tag content j')"
    if ne: "endIndex d \<noteq> - 1"
  proof (cases "findSub tag (take (b - a) (drop a content))")
    case None
    with e ne show ?thesis by simp
  next
    case (Some r)
    from findSub_Some[OF Some] win[of r]
    have r: "a + r + length tag \<le> b" "occursAt tag content (a + r)"
      and first: "\<forall>j<r. \<not> occursAt tag (take (b - a) (drop a content)) j" by simp_all
    have "\<not> occursAt tag content j'" if "a \<le> j'" "j' < a + r" for j'
    proof -
      from that have "j' - a < r" by simp
      with first have "\<not> occursAt tag (take (b - a) (drop a content)) (j' - a)" by blast
      moreover from that r(1) have "a + (j' - a) + length tag \<le> b" by simp
      ultimately show ?thesis using win[of "j' - a"] that by simp
    qed
    with r Some e show ?thesis
      by (intro exI[of _ "a + r"]) simp
  qed
  from st w none some show ?thesis
    unfolding Let_def ds_def[symmetric] d_def[symmetric] mks_def[symmetric] mk_def[symmetric]
      tag_def[symmetric] b_def[symmetric]
    by (simp add: a_def)
qed


text \<open>
  The witness: two \<open>ts-embed\<close> markers and one closing tag after the second. The first
  directive gets \<open>-1\<close>, though the tag stands at offset 46; the second gets 64.
\<close>

definition twoOpen :: jstr where
  "twoOpen = str ''<!-- ts-embed: a#X -->'' @ [10] @ str ''<!-- ts-embed: b#Y -->'' @ [10]
             @ str ''<!-- /ts-embed -->''"

lemma twoOpen_markers:
  "collectMarkers twoOpen 0 =
     [\<lparr>m_index = 0, m_length = 22, m_kind = Ts, m_sourcePath = str ''a'', m_symbolName = str ''X''\<rparr>,
      \<lparr>m_index = 23, m_length = 22, m_kind = Ts, m_sourcePath = str ''b'', m_symbolName = str ''Y''\<rparr>]"
  by (simp add: ev twoOpen_def)

lemma twoOpen_directives:
  "findDirectives twoOpen =
     [\<lparr>kind = Ts, sourcePath = str ''a'', symbolName = str ''X'', lineNumber = 1,
       startIndex = 0, endIndex = - 1\<rparr>,
      \<lparr>kind = Ts, sourcePath = str ''b'', symbolName = str ''Y'', lineNumber = 2,
       startIndex = 23, endIndex = 64\<rparr>]"
  unfolding findDirectives_def twoOpen_markers
  by (simp add: ev twoOpen_def)

theorem close_tag_window_witness:
  "0 < length (findDirectives twoOpen)
   \<and> map (\<lambda>d. (startIndex d, endIndex d)) (findDirectives twoOpen) = [(0, - 1), (23, 64)]
   \<and> \<not> (\<exists>j. 22 \<le> j \<and> j + 18 \<le> 23 \<and> occursAt (closeTagOf Ts) twoOpen j)
   \<and> occursAt (closeTagOf Ts) twoOpen 46"
proof -
  have l: "0 < length (findDirectives twoOpen)" by (simp add: twoOpen_directives)
  have t: "length (closeTagOf Ts) = 18" by (simp add: closeTagOf_def str_def)
  have o: "occursAt (closeTagOf Ts) twoOpen 46"
    by (simp add: occursAt_def closeTagOf_def twoOpen_def str_def)
  from close_tag_window[OF l]
  have "\<forall>j. 22 \<le> j \<and> j + 18 \<le> 23 \<longrightarrow> \<not> occursAt (closeTagOf Ts) twoOpen j"
    by (simp add: Let_def twoOpen_directives twoOpen_markers windowEnd_def t)
  with l o show ?thesis by (simp add: twoOpen_directives)
qed

section \<open>The leading comment of a declaration\<close>

text \<open>
  Modelled from the spec: the text extraction rule as the specification states it. The
  lines of the gap that start, once trimmed, with a comment marker are kept and joined;
  every other line of the gap is dropped; one line feed separates the comment block from
  the declaration.
\<close>

definition extractNodeTextSpec :: "jstr \<Rightarrow> Node \<Rightarrow> jstr" where
  "extractNodeTextSpec source node =
     (let leading = substring source (getFullStart node) (getStart node);
          commentLines =
            filter (\<lambda>l. startsWith (trim l) (str ''*'') \<or> startsWith (trim l) (str ''/'')
                        \<or> startsWith (trim l) (str ''/**''))
                   (splitLines leading);
          body = substring source (getStart node) (getEnd node)
      in (if commentLines = [] then [] else joinLines commentLines @ [10]) @ trimEnd body)"

definition docBar :: jstr where
  "docBar = str ''/** doc */'' @ [10] @ str ''function bar() {}''"

definition barNode :: Node where
  "barNode = Node FunctionDeclaration 0 11 28 (Some (Identifier (str ''bar''))) None []"

definition gapBlank :: jstr where
  "gapBlank = str ''// a'' @ [10, 10] @ str ''// b'' @ [10] @ str ''function f() {}''"

definition fNode :: Node where
  "fNode = Node FunctionDeclaration 0 11 26 (Some (Identifier (str ''f''))) None []"

text \<open>The equations that evaluate the string operations.\<close>

lemmas evStr = substring_def startsWith_def trim_def trimStart_def trimEnd_def is_space_def
  str_def

text \<open>
  Claim C4. \<open>extractNodeText\<close> filters the lines of the gap only to see whether a comment
  line exists; the block it prepends is the whole gap with its leading white space
  trimmed. So the line feed that ends the gap stays, and a second one is added: a doc
  comment right above \<open>function bar() {}\<close> comes out followed by two line feeds, and a
  blank line between two comments of the gap is kept. The rule of the specification gives
  one line feed and drops the blank line.
\<close>

theorem extractNodeText_keeps_whole_gap:
  "extractNodeText docBar barNode = str ''/** doc */'' @ [10, 10] @ str ''function bar() {}''
   \<and> extractNodeTextSpec docBar barNode = str ''/** doc */'' @ [10] @ str ''function bar() {}''
   \<and> extractNodeText gapBlank fNode
       = str ''// a'' @ [10, 10] @ str ''// b'' @ [10, 10] @ str ''function f() {}''
   \<and> extractNodeTextSpec gapBlank fNode
       = str ''// a'' @ [10] @ str ''// b'' @ [10] @ str ''function f() {}''"
  unfolding extractNodeText_def extractNodeTextSpec_def Let_def docBar_def barNode_def
    gapBlank_def fNode_def
  by (simp add: evStr)

section \<open>Dotted symbol names\<close>

text \<open>
  \<open>extractTsSymbol\<close> runs \<open>searchStatements\<close> on the text and the statements of the parsed
  unit, fresh or cached.
\<close>

lemma extractTsSymbol_parsed:
  "tsFileCache caches filePath = None \<Longrightarrow> files env filePath = Some source \<Longrightarrow>
     fst (extractTsSymbol env filePath symName caches)
       = searchStatements source symName (createSourceFile env filePath source)"
  by (simp add: extractTsSymbol_def getTsSourceFile_def Let_def)

lemma extractTsSymbol_cached:
  "tsFileCache caches filePath = Some sf \<Longrightarrow>
     fst (extractTsSymbol env filePath symName caches)
       = searchStatements (getFullText sf) symName (statements sf)"
  by (simp add: extractTsSymbol_def getTsSourceFile_def)

text \<open>
  A name is dot-free when it holds no \<open>.\<close> (46), as every identifier is. \<open>blocksNamed\<close> are
  the statements of the top-level namespace blocks of a given name, in order.
\<close>

definition dotFree :: "jstr \<Rightarrow> bool" where
  "dotFree s = (46 \<notin> set s)"

definition namesDotFree :: "Node list \<Rightarrow> bool" where
  "namesDotFree ns =
     list_all (\<lambda>n. case getNodeDeclaredName n of None \<Rightarrow> True | Some t \<Rightarrow> dotFree t) ns"

definition blocksNamed :: "jstr \<Rightarrow> Node list \<Rightarrow> Node list" where
  "blocksNamed outer stmts =
     concat (map (\<lambda>stmt. case namespaceBlock stmt of
                            None \<Rightarrow> []
                          | Some (t, inner) \<Rightarrow> if t = outer then inner else [])
                 stmts)"

definition innerNamesDotFree :: "Node list \<Rightarrow> bool" where
  "innerNamesDotFree stmts =
     list_all (\<lambda>stmt. case namespaceBlock stmt of
                         None \<Rightarrow> True
                       | Some (t, inner) \<Rightarrow> namesDotFree inner)
              stmts"

lemma namespaceBlock_name:
  "namespaceBlock stmt = Some (t, inner) \<Longrightarrow> getNodeDeclaredName stmt = Some t"
  by (auto simp: namespaceBlock_def getNodeDeclaredName_def
      split: if_splits option.splits NameNode.splits ModuleBody.splits)

lemma searchInner_append:
  "searchInner source n (xs @ ys) =
     (case searchInner source n xs of Some found \<Rightarrow> Some found | None \<Rightarrow> searchInner source n ys)"
  by (induction xs) simp_all

lemma searchInner_None:
  "namesDotFree inner \<Longrightarrow> \<not> dotFree n \<Longrightarrow> searchInner source n inner = None"
  by (induction inner) (auto simp: namesDotFree_def)

lemma first_dot:
  "dotFree a \<Longrightarrow> dotFree b \<Longrightarrow> a @ 46 # x = b @ 46 # y \<Longrightarrow> a = b"
proof (induction a arbitrary: b)
  case Nil
  then show ?case by (cases b) (auto simp: dotFree_def)
next
  case (Cons c a)
  then show ?case by (cases b) (auto simp: dotFree_def)
qed

lemma startsWith_dotted:
  assumes "dotFree t" "dotFree outer"
  shows "startsWith (outer @ [46] @ inner) (t @ [46]) = (t = outer)"
proof
  assume "startsWith (outer @ [46] @ inner) (t @ [46])"
  then have "take (length (t @ [46])) (outer @ 46 # inner) = t @ [46]"
    by (simp add: startsWith_def)
  then have "outer @ 46 # inner = (t @ [46]) @ drop (length (t @ [46])) (outer @ 46 # inner)"
    by (metis append_take_drop_id)
  then have "outer @ 46 # inner = t @ 46 # drop (length (t @ [46])) (outer @ 46 # inner)"
    by simp
  from first_dot[OF assms(2) assms(1) this] show "t = outer" by simp
next
  assume "t = outer"
  then show "startsWith (outer @ [46] @ inner) (t @ [46])" by (simp add: startsWith_def)
qed

lemma blocks_dotFree:
  "innerNamesDotFree stmts \<Longrightarrow> namesDotFree (blocksNamed outer stmts)"
  by (induction stmts)
     (auto simp: innerNamesDotFree_def namesDotFree_def blocksNamed_def split: option.splits)

lemma searchStatements_dotted:
  assumes "namesDotFree stmts" and "dotFree outer"
  shows "searchStatements source (outer @ [46] @ inner) stmts
           = searchInner source inner (blocksNamed outer stmts)"
  using assms(1)
proof (induction stmts)
  case Nil
  then show ?case by (simp add: blocksNamed_def)
next
  case (Cons stmt rest)
  from Cons.prems have rest: "namesDotFree rest"
    and nm: "\<And>t. getNodeDeclaredName stmt = Some t \<Longrightarrow> dotFree t"
    by (auto simp: namesDotFree_def)
  have nd: "\<not> dotFree (outer @ [46] @ inner)" by (simp add: dotFree_def)
  have ne: "getNodeDeclaredName stmt \<noteq> Some (outer @ [46] @ inner)"
    using nm nd by blast
  note ih = Cons.IH[OF rest]
  have bl: "blocksNamed outer (stmt # rest)
      = (case namespaceBlock stmt of None \<Rightarrow> [] | Some (t, ins) \<Rightarrow> if t = outer then ins else [])
        @ blocksNamed outer rest"
    by (simp add: blocksNamed_def)
  show ?case
  proof (cases "namespaceBlock stmt")
    case None
    with ne ih bl show ?thesis by simp
  next
    case (Some p)
    obtain t ins where p: "p = (t, ins)" by (cases p)
    from namespaceBlock_name[of stmt t ins] Some p nm have tf: "dotFree t" by simp
    have sw: "startsWith (outer @ [46] @ inner) (t @ str ''.'') = (t = outer)"
      using startsWith_dotted[OF tf assms(2), of inner] by (simp add: str_def)
    show ?thesis
    proof (cases "t = outer")
      case True
      with ne ih bl Some p sw show ?thesis
        by (simp add: searchInner_append split: option.splits)
    next
      case False
      with ne ih bl Some p sw show ?thesis by simp
    qed
  qed
qed

text \<open>
  Claim C8, as amended. When no declared name at the top level holds a dot, a symbol
  \<open>Outer.Inner\<close>, split at its first dot, is looked up among the statements of the
  top-level namespace blocks named \<open>Outer\<close>, one level deep, by the name \<open>Inner\<close>. When the
  names inside those blocks hold no dot either, a symbol with a second dot is not found.
\<close>

theorem dotted_symbol_lookup:
  assumes "namesDotFree stmts" and "dotFree outer"
  shows "searchStatements source (outer @ [46] @ inner) stmts
           = searchInner source inner (blocksNamed outer stmts)
         \<and> (innerNamesDotFree stmts \<and> \<not> dotFree inner
              \<longrightarrow> searchStatements source (outer @ [46] @ inner) stmts = None)"
  using searchStatements_dotted[OF assms] searchInner_None[OF blocks_dotFree]
  by simp

text \<open>
  The witness: \<open>namespace A { function f() {} }\<close>. The symbol \<open>A.f\<close> is found, \<open>A.f.g\<close> is
  not.
\<close>

definition nsSrc :: jstr where
  "nsSrc = str ''namespace A { function f() {} }''"

definition nsStmts :: "Node list" where
  "nsStmts =
     [Node ModuleDeclaration 0 0 31 (Some (Identifier (str ''A'')))
        (Some (ModuleBlock
           [Node FunctionDeclaration 13 14 29 (Some (Identifier (str ''f''))) None []]))
        []]"

theorem dotted_symbol_lookup_witness:
  "namesDotFree nsStmts \<and> innerNamesDotFree nsStmts \<and> dotFree (str ''A'')
   \<and> searchStatements nsSrc (str ''A.f'') nsStmts = Some (str ''function f() {}'')
   \<and> searchStatements nsSrc (str ''A.f.g'') nsStmts = None"
proof -
  have a: "namesDotFree nsStmts" and b: "innerNamesDotFree nsStmts"
    by (simp_all add: namesDotFree_def innerNamesDotFree_def nsStmts_def getNodeDeclaredName_def
        namespaceBlock_def dotFree_def str_def)
  have c: "dotFree (str ''A'')" by (simp add: dotFree_def str_def)
  have d: "blocksNamed (str ''A'') nsStmts
      = [Node FunctionDeclaration 13 14 29 (Some (Identifier (str ''f''))) None []]"
    by (simp add: blocksNamed_def nsStmts_def namespaceBlock_def)
  have e: "searchInner nsSrc (str ''f'')
      [Node FunctionDeclaration 13 14 29 (Some (Identifier (str ''f''))) None []]
      = Some (str ''function f() {}'')"
    unfolding searchInner.simps getNodeDeclaredName_def extractNodeText_def Let_def nsSrc_def
    by (simp add: evStr)
  have f: "\<not> dotFree (str ''f.g'')" by (simp add: dotFree_def str_def)
  have s1: "str ''A.f'' = str ''A'' @ [46] @ str ''f''" by (simp add: str_def)
  have s2: "str ''A.f.g'' = str ''A'' @ [46] @ str ''f.g''" by (simp add: str_def)
  from dotted_symbol_lookup[OF a c, of nsSrc "str ''f''"] d e
  have r1: "searchStatements nsSrc (str ''A.f'') nsStmts = Some (str ''function f() {}'')"
    by (simp add: s1)
  from dotted_symbol_lookup[OF a c, of nsSrc "str ''f.g''"] b f
  have "searchStatements nsSrc (str ''A'' @ [46] @ str ''f.g'') nsStmts = None"
    by blast
  then have r2: "searchStatements nsSrc (str ''A.f.g'') nsStmts = None"
    by (simp only: s2)
  from a b c r1 r2 show ?thesis by simp
qed

text \<open>
  The claim as stated fails: the name of a module declaration may be a string literal,
  whose text may hold dots. For \<^verbatim>\<open>declare module "A.B.C" {}\<close> the declared name is
  \<open>A.B.C\<close>, and the symbol \<open>A.B.C\<close>, which has two dots, is found at the top level.
\<close>

definition ambientSrc :: jstr where
  "ambientSrc = str ''declare module '' @ [34] @ str ''A.B.C'' @ [34] @ str '' {}''"

definition ambientStmts :: "Node list" where
  "ambientStmts =
     [Node ModuleDeclaration 0 0 25 (Some (StringLiteral (str ''A.B.C'')))
        (Some (ModuleBlock [])) []]"

definition tsDocsEnv :: "jstr \<Rightarrow> jstr \<Rightarrow> Node list \<Rightarrow> Env" where
  "tsDocsEnv name source stmts =
     \<lparr>files = [str ''/docs/'' @ name \<mapsto> source],
      createSourceFile = (\<lambda>_ _. stmts),
      path_dirname = (\<lambda>_. str ''/docs''),
      path_resolve = (\<lambda>parts. case parts of [d, p] \<Rightarrow> d @ str ''/'' @ p | [p] \<Rightarrow> p | _ \<Rightarrow> [])\<rparr>"

lemma ambient_text:
  "extractNodeText ambientSrc
     (Node ModuleDeclaration 0 0 25 (Some (StringLiteral (str ''A.B.C'')))
        (Some (ModuleBlock [])) [])
   = ambientSrc"
  unfolding extractNodeText_def Let_def ambientSrc_def
  by (simp add: evStr)

theorem multi_dot_symbol_found:
  "length (filter (\<lambda>c. c = 46) (str ''A.B.C'')) = 2
   \<and> fst (extractTsSymbol (tsDocsEnv (str ''m.d.ts'') ambientSrc ambientStmts)
            (str ''/docs/m.d.ts'') (str ''A.B.C'') noCaches)
       = Some ambientSrc"
proof -
  have "length (filter (\<lambda>c. c = 46) (str ''A.B.C'')) = 2" by (simp add: str_def)
  moreover have p: "str ''/docs/m.d.ts'' = str ''/docs/'' @ str ''m.d.ts''"
    by (simp add: str_def)
  moreover have "fst (extractTsSymbol (tsDocsEnv (str ''m.d.ts'') ambientSrc ambientStmts)
            (str ''/docs/m.d.ts'') (str ''A.B.C'') noCaches) = Some ambientSrc"
    unfolding extractTsSymbol_def getTsSourceFile_def tsDocsEnv_def noCaches_def
      ambientStmts_def Let_def
    by (simp add: ambient_text getNodeDeclaredName_def p)
  ultimately show ?thesis by simp
qed

section \<open>The terminator of a type-level declaration\<close>

text \<open>The first occurrence of a single code unit, as \<open>indexOf\<close> finds it.\<close>

lemma occursAt_single: "occursAt [ch] s j = (j < length s \<and> s ! j = ch)"
proof (cases "j < length s")
  case True
  then have "drop j s = s ! j # drop (Suc j) s" by (simp add: Cons_nth_drop_Suc)
  with True show ?thesis by (auto simp: occursAt_def)
next
  case False
  then show ?thesis by (simp add: occursAt_def)
qed

lemma indexOf_char_Some:
  assumes "indexOf s [ch] from = Some k"
  shows "from \<le> k \<and> k < length s \<and> s ! k = ch \<and> (\<forall>j. from \<le> j \<and> j < k \<longrightarrow> s ! j \<noteq> ch)"
proof -
  from assms obtain r where r: "findSub [ch] (drop from s) = Some r"
    and k: "k = min from (length s) + r" by (auto simp: indexOf_def)
  from findSub_Some[OF r] have o: "occursAt [ch] (drop from s) r"
    and first: "\<forall>j<r. \<not> occursAt [ch] (drop from s) j" by simp_all
  from o have rl: "r < length s - from" and "drop from s ! r = ch"
    by (simp_all add: occursAt_single)
  then have fl: "from \<le> length s" and sk: "s ! (from + r) = ch" by simp_all
  from fl k have k': "k = from + r" by simp
  have "s ! j \<noteq> ch" if "from \<le> j" "j < k" for j
  proof -
    from that k' have "j - from < r" by simp
    with first have "\<not> occursAt [ch] (drop from s) (j - from)" by blast
    moreover from that k' rl have "j - from < length s - from" by simp
    ultimately show ?thesis using that by (simp add: occursAt_single)
  qed
  with k' rl sk show ?thesis by simp
qed

lemma indexOf_char_None:
  assumes "indexOf s [ch] from = None" "from \<le> j" "j < length s"
  shows "s ! j \<noteq> ch"
proof -
  from assms(1) have "findSub [ch] (drop from s) = None" by (simp add: indexOf_def)
  from findSub_None[OF this, of "j - from"] assms(2,3) show ?thesis
    by (simp add: occursAt_single)
qed

lemma indexOf_char_first:
  assumes "from \<le> k" "k < length s" "s ! k = ch" "\<forall>j. from \<le> j \<and> j < k \<longrightarrow> s ! j \<noteq> ch"
  shows "indexOf s [ch] from = Some k"
proof (cases "indexOf s [ch] from")
  case None
  from indexOf_char_None[OF None assms(1,2)] assms(3) show ?thesis by simp
next
  case (Some k')
  from indexOf_char_Some[OF Some] have k': "from \<le> k'" "s ! k' = ch"
    "\<forall>j. from \<le> j \<and> j < k' \<longrightarrow> s ! j \<noteq> ch" by simp_all
  have "\<not> k' < k" using assms(4) k'(1,2) by blast
  moreover have "\<not> k < k'" using k'(3) assms(1,3) by blast
  ultimately show ?thesis using Some by simp
qed

lemma indexOf_char_after:
  assumes "from \<le> k" "k < length s" "\<forall>j. from \<le> j \<and> j \<le> k \<longrightarrow> s ! j \<noteq> ch"
  shows "indexOf s [ch] from = None \<or> (\<exists>k'. indexOf s [ch] from = Some k' \<and> k < k')"
proof (cases "indexOf s [ch] from")
  case None
  then show ?thesis by simp
next
  case (Some k')
  from indexOf_char_Some[OF Some] have "from \<le> k'" "s ! k' = ch" by simp_all
  with assms(3) have "\<not> k' \<le> k" by blast
  then have "k < k'" by simp
  with Some show ?thesis by simp
qed

text \<open>
  Claim C5, as amended. After a match of the type-level pattern of \<open>extractCsSymbol\<close>
  that ends at offset \<open>afterMatch\<close>, the first \<open>;\<close> (59) or \<open>{\<close> (123) of the text at or
  after that offset decides, wherever it stands, in a comment or a string too: a
  semicolon ends the text, which runs from \<open>declStart\<close> through that semicolon; a brace
  starts the balanced-delimiter scan, and the text runs through the brace the scan
  answers. With neither, nothing is found. \<open>declStart\<close> is the start of the match moved
  past the leading white space of group 1, the doc-comment and attribute lines: the
  indentation of a declaration that has none belongs to group 2 and stays. The statement
  is about the type-level pattern only; the method fallback \<open>extractCsMethod\<close> is not
  covered by it.
\<close>

theorem terminator_by_plain_search:
  assumes "reExec (declPattern symName) source 0 = Some m"
  shows "(index m + length (matched m) \<le> k \<and> k < length source
            \<and> (source ! k = 59 \<or> source ! k = 123)
            \<and> (\<forall>j. index m + length (matched m) \<le> j \<and> j < k
                     \<longrightarrow> source ! j \<noteq> 59 \<and> source ! j \<noteq> 123)
          \<longrightarrow> extractCsSymbolIn source symName
                = (if source ! k = 59
                   then Some (trimEnd (substring source
                           (index m + length (grp m 1) - length (trimStart (grp m 1))) (k + 1)))
                   else (case findMatchingBrace source k of
                           None \<Rightarrow> None
                         | Some endIdx \<Rightarrow>
                             Some (trimEnd (substring source
                               (index m + length (grp m 1) - length (trimStart (grp m 1)))
                               (endIdx + 1))))))
         \<and> ((\<forall>j. index m + length (matched m) \<le> j \<and> j < length source
                   \<longrightarrow> source ! j \<noteq> 59 \<and> source ! j \<noteq> 123)
              \<longrightarrow> extractCsSymbolIn source symName = None)"
proof (intro conjI impI)
  define a where "a = index m + length (matched m)"
  define ds where "ds = index m + length (grp m 1) - length (trimStart (grp m 1))"
  have b: "str ''{'' = [123]" and s: "str '';'' = [59]" by (simp_all add: str_def)
  have ex: "extractCsSymbolIn source symName =
      (if indexOf source [59] a \<noteq> None
          \<and> (indexOf source [123] a = None \<or> the (indexOf source [59] a) < the (indexOf source [123] a))
       then Some (trimEnd (substring source ds (the (indexOf source [59] a) + 1)))
       else (case indexOf source [123] a of
               None \<Rightarrow> None
             | Some b \<Rightarrow> (case findMatchingBrace source b of
                            None \<Rightarrow> None
                          | Some endIdx \<Rightarrow> Some (trimEnd (substring source ds (endIdx + 1))))))"
    unfolding a_def ds_def extractCsSymbolIn_def Let_def assms b s
    by simp
  {
    assume h: "index m + length (matched m) \<le> k \<and> k < length source
            \<and> (source ! k = 59 \<or> source ! k = 123)
            \<and> (\<forall>j. index m + length (matched m) \<le> j \<and> j < k
                     \<longrightarrow> source ! j \<noteq> 59 \<and> source ! j \<noteq> 123)"
    then have k: "a \<le> k" "k < length source" and t: "source ! k = 59 \<or> source ! k = 123"
      and f: "\<forall>j. a \<le> j \<and> j < k \<longrightarrow> source ! j \<noteq> 59 \<and> source ! j \<noteq> 123"
      by (simp_all add: a_def)
    show "extractCsSymbolIn source symName
                = (if source ! k = 59
                   then Some (trimEnd (substring source
                           (index m + length (grp m 1) - length (trimStart (grp m 1))) (k + 1)))
                   else (case findMatchingBrace source k of
                           None \<Rightarrow> None
                         | Some endIdx \<Rightarrow>
                             Some (trimEnd (substring source
                               (index m + length (grp m 1) - length (trimStart (grp m 1)))
                               (endIdx + 1)))))"
    proof (cases "source ! k = 59")
      case True
      from f have "\<forall>j. a \<le> j \<and> j < k \<longrightarrow> source ! j \<noteq> 59" by blast
      from indexOf_char_first[OF k True this] have semi: "indexOf source [59] a = Some k" .
      have "source ! j \<noteq> 123" if "a \<le> j \<and> j \<le> k" for j
      proof (cases "j = k")
        case True
        with \<open>source ! k = 59\<close> show ?thesis by simp
      next
        case False
        with that f show ?thesis by simp
      qed
      then have "\<forall>j. a \<le> j \<and> j \<le> k \<longrightarrow> source ! j \<noteq> 123" by blast
      from indexOf_char_after[OF k this]
      have "indexOf source [123] a = None \<or> (\<exists>k'. indexOf source [123] a = Some k' \<and> k < k')" .
      with semi True show ?thesis unfolding ex ds_def by auto
    next
      case False
      with t have br: "source ! k = 123" by simp
      from f have "\<forall>j. a \<le> j \<and> j < k \<longrightarrow> source ! j \<noteq> 123" by blast
      from indexOf_char_first[OF k br this] have brace: "indexOf source [123] a = Some k" .
      have "source ! j \<noteq> 59" if "a \<le> j \<and> j \<le> k" for j
      proof (cases "j = k")
        case True
        with \<open>source ! k \<noteq> 59\<close> show ?thesis by simp
      next
        case False
        with that f show ?thesis by simp
      qed
      then have "\<forall>j. a \<le> j \<and> j \<le> k \<longrightarrow> source ! j \<noteq> 59" by blast
      from indexOf_char_after[OF k this]
      have "indexOf source [59] a = None \<or> (\<exists>k'. indexOf source [59] a = Some k' \<and> k < k')" .
      with brace False show ?thesis unfolding ex ds_def by auto
    qed
  }
  {
    assume n: "\<forall>j. index m + length (matched m) \<le> j \<and> j < length source
                   \<longrightarrow> source ! j \<noteq> 59 \<and> source ! j \<noteq> 123"
    have "indexOf source [59] a = None"
    proof (cases "indexOf source [59] a")
      case (Some k')
      from indexOf_char_Some[OF Some] n show ?thesis by (auto simp: a_def)
    qed simp
    moreover have "indexOf source [123] a = None"
    proof (cases "indexOf source [123] a")
      case (Some k')
      from indexOf_char_Some[OF Some] n show ?thesis by (auto simp: a_def)
    qed simp
    ultimately show "extractCsSymbolIn source symName = None" unfolding ex by simp
  }
qed


text \<open>
  The claim as stated speaks of the next unguarded brace and semicolon, of an
  indentation-trimmed start, and of every header match. The specification's reading of
  the first is modelled here and evaluated beside the code on
  \<^verbatim>\<open>class Foo /* ; */ { }\<close>: the code stops at the semicolon inside the comment.
\<close>

text \<open>
  Modelled from the spec: a position is unguarded when it lies in no comment and no
  string, the text being read from its start in the lexical modes of the
  balanced-delimiter scan. \<open>unguarded m cs\<close> marks the positions of \<open>cs\<close>, read in mode \<open>m\<close>.
\<close>

fun unguarded :: "LexMode \<Rightarrow> jstr \<Rightarrow> bool list" where
  "unguarded m [] = []"
| "unguarded LineComment (c # cs) = False # unguarded (if c = 10 then Code else LineComment) cs"
| "unguarded BlockComment (c # cs) =
     (if c = 42 \<and> headOf cs = Some 47 then False # False # unguarded Code (tl cs)
      else False # unguarded BlockComment cs)"
| "unguarded Verbatim (c # cs) =
     (if c = 34 \<and> headOf cs = Some 34 then False # False # unguarded Verbatim (tl cs)
      else False # unguarded (if c = 34 then Code else Verbatim) cs)"
| "unguarded (Quoted q) (c # cs) =
     (if c = 92 then False # (case cs of [] \<Rightarrow> [] | _ # cs' \<Rightarrow> False # unguarded (Quoted q) cs')
      else False # unguarded (if c = q then Code else Quoted q) cs)"
| "unguarded Code (c # cs) =
     (if c = 47 \<and> headOf cs = Some 47 then False # False # unguarded LineComment (tl cs)
      else if c = 47 \<and> headOf cs = Some 42 then False # False # unguarded BlockComment (tl cs)
      else if c = 64 \<and> headOf cs = Some 34 then False # False # unguarded Verbatim (tl cs)
      else if c = 34 \<or> c = 39 then False # unguarded (Quoted c) cs
      else True # unguarded Code cs)"

text \<open>
  Modelled from the spec: the next unguarded occurrence of a code unit at or after an
  offset.
\<close>

definition nextUnguarded :: "cu \<Rightarrow> jstr \<Rightarrow> nat \<Rightarrow> nat option" where
  "nextUnguarded ch source from =
     List.find (\<lambda>j. source ! j = ch \<and> unguarded Code source ! j) [from..<length source]"

text \<open>
  Modelled from the spec: \<open>extractCsSymbol\<close> on a source text as the specification states
  it, the terminator being decided between the next unguarded \<open>{\<close> and the next unguarded
  \<open>;\<close> after the header match.
\<close>

definition extractCsSymbolInSpec :: "jstr \<Rightarrow> jstr \<Rightarrow> jstr option" where
  "extractCsSymbolInSpec source symName =
     (case reExec (declPattern symName) source 0 of
        None \<Rightarrow> extractCsMethod source symName
      | Some m \<Rightarrow>
          (let preamble = grp m 1;
               declStart = index m + length preamble - length (trimStart preamble);
               afterMatch = index m + length (matched m);
               braceStart = nextUnguarded 123 source afterMatch;
               semiStart = nextUnguarded 59 source afterMatch
           in if semiStart \<noteq> None \<and> (braceStart = None \<or> the semiStart < the braceStart)
              then Some (trimEnd (substring source declStart (the semiStart + 1)))
              else (case braceStart of
                      None \<Rightarrow> None
                    | Some b \<Rightarrow>
                        (case findMatchingBrace source b of
                           None \<Rightarrow> None
                         | Some endIdx \<Rightarrow>
                             Some (trimEnd (substring source declStart (endIdx + 1)))))))"

definition semiInComment :: jstr where
  "semiInComment = str ''class Foo /* ; */ { }''"

lemma semiInComment_header:
  "reExec (declPattern (str ''Foo'')) semiInComment 0
     = Some \<lparr>index = 0, matched = str ''class Foo /* '',
             groups = [1 \<mapsto> [], 2 \<mapsto> str ''class Foo /* '']\<rparr>"
  unfolding reExec_def declPattern_def docLines_def attrLines_def ws_def Plus_def escapeRegex_def
    semiInComment_def
  by (simp add: ms.simps str_def is_space_def)

lemma semiInComment_unguarded:
  "unguarded Code semiInComment
     = [True, True, True, True, True, True, True, True, True, True,
        False, False, False, False, False, False, False, True, True, True, True]"
  by (simp add: semiInComment_def str_def headOf_def)

lemma semiInComment_code:
  "extractCsSymbolIn semiInComment (str ''Foo'') = Some (str ''class Foo /* ;'')"
  unfolding extractCsSymbolIn_def semiInComment_header Let_def
  by (simp add: grp_def indexOf_def semiInComment_def evStr)

lemma semiInComment_spec:
  "extractCsSymbolInSpec semiInComment (str ''Foo'') = Some (str ''class Foo /* ; */ { }'')"
proof -
  have g: "nextUnguarded 123 semiInComment 13 = Some 18" "nextUnguarded 59 semiInComment 13 = None"
    unfolding nextUnguarded_def semiInComment_unguarded
    by (simp_all add: semiInComment_def str_def)
  have b: "findMatchingBrace semiInComment 18 = Some 20"
    by (simp add: findMatchingBrace_def fmbLoop.simps charAt_def semiInComment_def str_def Let_def)
  have len: "length (str ''class Foo /* '') = 13" by (simp add: str_def)
  have "extractCsSymbolInSpec semiInComment (str ''Foo'')
      = Some (trimEnd (substring semiInComment 0 21))"
    unfolding extractCsSymbolInSpec_def semiInComment_header Let_def
    by (simp add: grp_def g b len trimStart_def)
  then show ?thesis by (simp add: semiInComment_def evStr)
qed

text \<open>
  A declaration with no doc comment above it keeps its indentation: the two spaces of
  \<^verbatim>\<open>  class Foo;\<close> belong to group 2 of the match, and \<open>declStart\<close> is the start of the
  match.
\<close>

definition indented :: jstr where
  "indented = str ''  class Foo;''"

lemma indented_kept: "extractCsSymbolIn indented (str ''Foo'') = Some (str ''  class Foo;'')"
  by (simp add: ev indented_def)

text \<open>
  The method fallback compares nothing: \<open>extractCsMethod\<close> looks for a brace first and
  for a semicolon only when the rest of the text has no brace. The header of the abstract
  method \<open>M\<close> below ends at offset 17, where the semicolon stands, and the text returned
  runs through the closing brace of the next method.
\<close>

definition abstractThenBody :: jstr where
  "abstractThenBody = str ''abstract void M();'' @ [10] @ str ''int N() { }''"

lemma abstractThenBody_no_type: "reExec (declPattern (str ''M'')) abstractThenBody 0 = None"
  by (simp add: ev abstractThenBody_def)

lemma abstractThenBody_header:
  "reExec (methodPattern (str ''M'')) abstractThenBody 0 \<noteq> None
   \<and> index (the (reExec (methodPattern (str ''M'')) abstractThenBody 0)) = 0
   \<and> matched (the (reExec (methodPattern (str ''M'')) abstractThenBody 0)) = str ''abstract void M()''"
  by (simp add: ev abstractThenBody_def)

lemma abstractThenBody_code:
  "extractCsSymbolIn abstractThenBody (str ''M'')
     = Some (str ''abstract void M();'' @ [10] @ str ''int N() { }'')"
  by (simp add: ev abstractThenBody_def)

theorem terminator_rule_fails:
  "extractCsSymbolIn semiInComment (str ''Foo'') = Some (str ''class Foo /* ;'')
   \<and> extractCsSymbolInSpec semiInComment (str ''Foo'') = Some (str ''class Foo /* ; */ { }'')
   \<and> extractCsSymbolIn indented (str ''Foo'') = Some (str ''  class Foo;'')
   \<and> reExec (declPattern (str ''M'')) abstractThenBody 0 = None
   \<and> reExec (methodPattern (str ''M'')) abstractThenBody 0 \<noteq> None
   \<and> index (the (reExec (methodPattern (str ''M'')) abstractThenBody 0)) = 0
   \<and> matched (the (reExec (methodPattern (str ''M'')) abstractThenBody 0)) = str ''abstract void M()''
   \<and> abstractThenBody ! 17 = 59
   \<and> extractCsSymbolIn abstractThenBody (str ''M'')
       = Some (str ''abstract void M();'' @ [10] @ str ''int N() { }'')"
proof -
  have "abstractThenBody ! 17 = 59" by (simp add: abstractThenBody_def str_def)
  with semiInComment_code semiInComment_spec indented_kept abstractThenBody_no_type
    abstractThenBody_header abstractThenBody_code
  show ?thesis by simp
qed


text \<open>The witness of the amended claim is the same source: the semicolon at offset 13 decides.\<close>

theorem terminator_by_plain_search_witness:
  "reExec (declPattern (str ''Foo'')) semiInComment 0
     = Some \<lparr>index = 0, matched = str ''class Foo /* '',
             groups = [1 \<mapsto> [], 2 \<mapsto> str ''class Foo /* '']\<rparr>
   \<and> length (str ''class Foo /* '') = 13 \<and> 13 < length semiInComment
   \<and> semiInComment ! 13 = 59
   \<and> extractCsSymbolIn semiInComment (str ''Foo'')
       = Some (trimEnd (substring semiInComment 0 14))"
proof -
  have len: "length (str ''class Foo /* '') = 13" by (simp add: str_def)
  have l: "13 < length semiInComment" and c: "semiInComment ! 13 = 59"
    by (simp_all add: semiInComment_def str_def)
  from terminator_by_plain_search[OF semiInComment_header, of 13] len l c
  have "extractCsSymbolIn semiInComment (str ''Foo'')
       = Some (trimEnd (substring semiInComment 0 14))"
    by (simp add: grp_def trimStart_def)
  with semiInComment_header len l c show ?thesis by simp
qed

section \<open>The loop of applyEmbeds\<close>

text \<open>The caches agree with the file system: what they hold is what a read would give.\<close>

definition cacheOk :: "Env \<Rightarrow> Caches \<Rightarrow> bool" where
  "cacheOk env caches =
     (csFileCache caches \<subseteq>\<^sub>m files env
      \<and> tsFileCache caches \<subseteq>\<^sub>m
          (\<lambda>p. map_option (\<lambda>source. \<lparr>getFullText = source,
                                        statements = createSourceFile env p source\<rparr>)
                            (files env p)))"

lemma cacheOk_noCaches: "cacheOk env noCaches"
  by (simp add: cacheOk_def noCaches_def)

lemma getCsSource_ok:
  assumes "cacheOk env c"
  shows "fst (getCsSource env p c) = files env p \<and> cacheOk env (snd (getCsSource env p c))"
proof (cases "csFileCache c p")
  case None
  show ?thesis
  proof (cases "files env p")
    case N: None
    with None assms show ?thesis by (simp add: getCsSource_def)
  next
    case (Some s)
    with None assms show ?thesis
      by (auto simp: getCsSource_def cacheOk_def map_le_def)
  qed
next
  case (Some s)
  with assms have "files env p = Some s"
    by (auto simp: cacheOk_def map_le_def dom_def)
  with Some assms show ?thesis by (simp add: getCsSource_def)
qed

lemma getTsSourceFile_ok:
  assumes "cacheOk env c"
  shows "fst (getTsSourceFile env p c)
           = map_option (\<lambda>source. \<lparr>getFullText = source,
                                    statements = createSourceFile env p source\<rparr>) (files env p)
         \<and> cacheOk env (snd (getTsSourceFile env p c))"
proof (cases "tsFileCache c p")
  case None
  show ?thesis
  proof (cases "files env p")
    case N: None
    with None assms show ?thesis by (simp add: getTsSourceFile_def)
  next
    case (Some s)
    with None assms show ?thesis
      by (auto simp: getTsSourceFile_def cacheOk_def map_le_def Let_def)
  qed
next
  case (Some sf)
  with assms have "map_option (\<lambda>source. \<lparr>getFullText = source,
                       statements = createSourceFile env p source\<rparr>) (files env p) = Some sf"
    unfolding cacheOk_def map_le_def by (metis domI)
  with Some assms show ?thesis by (auto simp: getTsSourceFile_def)
qed

lemma extractCsSymbol_pure:
  assumes "cacheOk env c"
  shows "fst (extractCsSymbol env p s c)
           = (case files env p of None \<Rightarrow> None | Some source \<Rightarrow> extractCsSymbolIn source s)
         \<and> cacheOk env (snd (extractCsSymbol env p s c))"
proof -
  obtain x c' where g: "getCsSource env p c = (x, c')" by (cases "getCsSource env p c")
  with getCsSource_ok[OF assms, of p] have x: "x = files env p" and c': "cacheOk env c'"
    by simp_all
  show ?thesis
    by (cases "files env p") (simp_all add: extractCsSymbol_def g x c')
qed

lemma extractTsSymbol_pure:
  assumes "cacheOk env c"
  shows "fst (extractTsSymbol env p s c)
           = (case files env p of
                None \<Rightarrow> None
              | Some source \<Rightarrow> searchStatements source s (createSourceFile env p source))
         \<and> cacheOk env (snd (extractTsSymbol env p s c))"
proof -
  obtain x c' where g: "getTsSourceFile env p c = (x, c')" by (cases "getTsSourceFile env p c")
  with getTsSourceFile_ok[OF assms, of p]
  have x: "x = map_option (\<lambda>source. \<lparr>getFullText = source,
                                    statements = createSourceFile env p source\<rparr>) (files env p)"
    and c': "cacheOk env c'" by simp_all
  show ?thesis
    by (cases "files env p") (simp_all add: extractTsSymbol_def g x c')
qed

lemma resolveEmbed_ok:
  assumes "cacheOk env c"
  shows "fst (resolveEmbed env d md c) = fst (resolveEmbed env d md noCaches)
         \<and> cacheOk env (snd (resolveEmbed env d md c))"
proof -
  define p where "p = path_resolve env [path_dirname env md, sourcePath d]"
  define ex where "ex = (if kind d = Ts then extractTsSymbol else extractCsSymbol)"
  have e: "fst (ex env p (symbolName d) c) = fst (ex env p (symbolName d) noCaches)
           \<and> cacheOk env (snd (ex env p (symbolName d) c))"
    using extractTsSymbol_pure[OF assms, of p "symbolName d"]
      extractTsSymbol_pure[OF cacheOk_noCaches, of env p "symbolName d"]
      extractCsSymbol_pure[OF assms, of p "symbolName d"]
      extractCsSymbol_pure[OF cacheOk_noCaches, of env p "symbolName d"]
    by (simp add: ex_def)
  obtain x c1 where 1: "ex env p (symbolName d) c = (x, c1)" by (cases "ex env p (symbolName d) c")
  obtain y c2 where 2: "ex env p (symbolName d) noCaches = (y, c2)"
    by (cases "ex env p (symbolName d) noCaches")
  from e 1 2 have xy: "x = y" and ok: "cacheOk env c1" by simp_all
  show ?thesis
    unfolding resolveEmbed_def Let_def p_def[symmetric] ex_def[symmetric]
    using assms by (cases y) (simp_all add: 1 2 xy ok)
qed


text \<open>
  The resolution of a directive in a run that starts with empty caches, whether it fails,
  the report of a failure, and the text after one iteration.
\<close>

definition resolved :: "Env \<Rightarrow> jstr \<Rightarrow> EmbedDirective \<Rightarrow> EmbedResult" where
  "resolved env mdFilePath dir = fst (resolveEmbed env dir mdFilePath noCaches)"

definition failing :: "Env \<Rightarrow> jstr \<Rightarrow> EmbedDirective \<Rightarrow> bool" where
  "failing env mdFilePath dir = truthy (error (resolved env mdFilePath dir))"

definition reportOf :: "Env \<Rightarrow> jstr \<Rightarrow> EmbedDirective \<Rightarrow> ErrorReport" where
  "reportOf env mdFilePath dir =
     \<lparr>e_mdFile = path_resolve env [mdFilePath],
      e_lineNumber = lineNumber dir,
      e_reason = orEmpty (error (resolved env mdFilePath dir)),
      e_sourcePath = sourcePath dir,
      e_symbolName = symbolName dir\<rparr>"

definition rewriteText :: "Env \<Rightarrow> jstr \<Rightarrow> jstr \<Rightarrow> EmbedDirective \<Rightarrow> jstr" where
  "rewriteText env mdFilePath result dir = fst (applyStep env mdFilePath (result, [], noCaches) dir)"

lemma applyStep_pure:
  assumes "cacheOk env c"
  shows "fst (applyStep env md (r, e, c) d) = rewriteText env md r d
         \<and> fst (snd (applyStep env md (r, e, c) d))
             = (if failing env md d then e @ [reportOf env md d] else e)
         \<and> cacheOk env (snd (snd (applyStep env md (r, e, c) d)))"
proof -
  obtain x c1 where 1: "resolveEmbed env d md c = (x, c1)" by (cases "resolveEmbed env d md c")
  obtain y c2 where 2: "resolveEmbed env d md noCaches = (y, c2)"
    by (cases "resolveEmbed env d md noCaches")
  from resolveEmbed_ok[OF assms, of d md] 1 2 have xy: "x = y" and ok: "cacheOk env c1"
    by simp_all
  have f: "failing env md d = truthy (error y)" by (simp add: failing_def resolved_def 2)
  have rp: "reportOf env md d = \<lparr>e_mdFile = path_resolve env [md], e_lineNumber = lineNumber d,
      e_reason = orEmpty (error y), e_sourcePath = sourcePath d, e_symbolName = symbolName d\<rparr>"
    by (simp add: reportOf_def resolved_def 2)
  show ?thesis
    unfolding rewriteText_def applyStep_def Let_def
    by (simp add: 1 2 xy ok f rp split: option.splits)
qed

lemma rewriteText_failing:
  assumes "failing env md d"
  shows "rewriteText env md r d = r"
proof -
  obtain y c2 where 2: "resolveEmbed env d md noCaches = (y, c2)"
    by (cases "resolveEmbed env d md noCaches")
  with assms have "truthy (error y)" by (simp add: failing_def resolved_def)
  then show ?thesis by (simp add: rewriteText_def applyStep_def Let_def 2)
qed

lemma loop_pure:
  assumes "cacheOk env c"
  shows "fst (foldl (applyStep env md) (r, e, c) ds) = foldl (rewriteText env md) r ds
         \<and> fst (snd (foldl (applyStep env md) (r, e, c) ds))
             = e @ map (reportOf env md) (filter (failing env md) ds)
         \<and> cacheOk env (snd (snd (foldl (applyStep env md) (r, e, c) ds)))"
  using assms
proof (induction ds arbitrary: r e c)
  case Nil
  then show ?case by simp
next
  case (Cons d ds)
  obtain r' e' c' where s: "applyStep env md (r, e, c) d = (r', e', c')"
    by (cases "applyStep env md (r, e, c) d")
  from applyStep_pure[OF Cons.prems, of md r e d] s
  have r': "r' = rewriteText env md r d"
    and e': "e' = (if failing env md d then e @ [reportOf env md d] else e)"
    and c': "cacheOk env c'" by simp_all
  from Cons.IH[OF c', of r' e'] show ?case by (simp add: s r' e')
qed

lemma foldl_rewrite_filter:
  "foldl (rewriteText env md) r ds
     = foldl (rewriteText env md) r (filter (\<lambda>d. \<not> failing env md d) ds)"
  by (induction ds arbitrary: r) (simp_all add: rewriteText_failing)

lemma applyEmbeds_foldl:
  "applyEmbeds env content md c
     = foldl (applyStep env md) (content, [], c) (sortDescending (findDirectives content))"
  by (cases "findDirectives content") (simp_all add: applyEmbeds_def Let_def sortDescending_def)

lemma openMarkerRe_nonempty:
  "reExec (openMarkerRe tag d) s k = Some m \<Longrightarrow> 0 < length (matched m)"
  unfolding openMarkerRe_def reExec_def str_def
  by (auto split: if_splits dest: execAt_nonempty)

lemma applyStep_shape:
  "fst (applyStep env md (r, e, c) d) = r
   \<or> (\<exists>a ins. startIndex d < a \<and> a \<le> length r
          \<and> fst (applyStep env md (r, e, c) d)
              = take a r @ ins @ drop (if endIndex d \<noteq> - 1 then nat (endIndex d) else a) r)"
proof -
  obtain x c1 where 1: "resolveEmbed env d md c = (x, c1)" by (cases "resolveEmbed env d md c")
  define tag where "tag = kindStr (kind d) @ str ''-embed''"
  show ?thesis
  proof (cases "truthy (error x)")
    case True
    then show ?thesis by (simp add: applyStep_def Let_def 1)
  next
    case False
    show ?thesis
    proof (cases "reExec (openMarkerRe tag d) (substringFrom r (startIndex d)) 0")
      case None
      with False show ?thesis by (simp add: applyStep_def Let_def 1 tag_def)
    next
      case (Some m)
      define a where "a = startIndex d + index m + length (matched m)"
      from reExec_bounds[OF Some] have b: "index m + length (matched m) \<le> length r - startIndex d"
        by (simp add: substringFrom_def)
      from openMarkerRe_nonempty[OF Some] have n: "0 < length (matched m)" .
      from b n have al: "a \<le> length r" and sa: "startIndex d < a"
        unfolding a_def by arith+
      have sub: "substring r 0 a = take a r"
        using substring_window[of 0 a r] al by simp
      have "fst (applyStep env md (r, e, c) d)
          = take a r @ ([10] @ codeBlockOf (if kind d = Ts then str ''ts'' else str ''csharp'') tag (code x))
            @ drop (if endIndex d \<noteq> - 1 then nat (endIndex d) else a) r"
        using False Some
        by (simp add: applyStep_def Let_def 1 tag_def[symmetric] a_def[symmetric] sub substringFrom_def)
      with al sa show ?thesis by blast
    qed
  qed
qed

lemma applyStep_prefix:
  "n \<le> startIndex d \<Longrightarrow> take n (fst (applyStep env md (r, e, c) d)) = take n r"
  using applyStep_shape[of env md r e c d] by auto

lemma loop_prefix:
  "\<forall>p \<in> set ps. n \<le> startIndex p \<Longrightarrow>
     take n (fst (foldl (applyStep env md) st ps)) = take n (fst st)"
proof (induction ps arbitrary: st)
  case Nil
  then show ?case by simp
next
  case (Cons p ps)
  obtain r e c where st: "st = (r, e, c)" by (cases st)
  from Cons.prems have n: "n \<le> startIndex p" and rest: "\<forall>p \<in> set ps. n \<le> startIndex p"
    by simp_all
  from Cons.IH[OF rest, of "applyStep env md st p"] applyStep_prefix[OF n, of env md r e c]
  show ?case by (simp add: st)
qed


lemma spaced_ascending:
  "spaced lo hi mks \<Longrightarrow>
     sorted_wrt (<) (map m_index mks) \<and> (\<forall>m \<in> set mks. lo \<le> m_index m)"
proof (induction mks arbitrary: lo)
  case Nil
  then show ?case by simp
next
  case (Cons m rest)
  from Cons.prems have sp: "spaced (m_index m + m_length m) hi rest"
    and lo: "lo \<le> m_index m" and l: "0 < m_length m" by simp_all
  from Cons.IH[OF sp] l lo show ?case by fastforce
qed

lemma map_startIndex_closeMarkers:
  "map startIndex (closeMarkers content mks) = map m_index mks"
  by (induction mks) (simp_all add: Let_def)

lemma directives_ascending:
  "sorted_wrt (<) (map startIndex (findDirectives content))"
  using spaced_ascending[OF collectMarkers_spaced[of 0 content]]
  by (simp add: findDirectives_def map_startIndex_closeMarkers)

lemma sortDescending_rev:
  "sortDescending (findDirectives content) = rev (findDirectives content)"
proof -
  define ds where "ds = findDirectives content"
  have asc: "sorted_wrt (<) (map startIndex ds)" unfolding ds_def by (rule directives_ascending)
  then have dist: "distinct (map startIndex ds)"
    by (simp add: strict_sorted_iff)
  have inj: "inj_on (\<lambda>d. - int (startIndex d)) (set ds)"
  proof (rule inj_onI)
    fix x y assume "x \<in> set ds" "y \<in> set ds" "- int (startIndex x) = - int (startIndex y)"
    then have "startIndex x = startIndex y" by simp
    with dist \<open>x \<in> set ds\<close> \<open>y \<in> set ds\<close> show "x = y"
      by (meson distinct_map inj_onD)
  qed
  from asc have "sorted_wrt (\<lambda>a b. startIndex a < startIndex b) ds"
    by (simp add: sorted_wrt_map)
  then have "sorted_wrt (\<lambda>a b. - int (startIndex b) \<le> - int (startIndex a)) ds"
    by (rule sorted_wrt_mono_rel[rotated]) simp
  then have "sorted_wrt (\<lambda>a b. - int (startIndex a) \<le> - int (startIndex b)) (rev ds)"
    by (simp add: sorted_wrt_rev)
  then have srt: "sorted (map (\<lambda>d. - int (startIndex d)) (rev ds))"
    by (simp add: sorted_wrt_map)
  have "sort_key (\<lambda>d. - int (startIndex d)) ds = rev ds"
    by (rule sort_key_inj_key_eq[OF _ inj srt]) simp
  then show ?thesis by (simp add: sortDescending_def ds_def)
qed

lemma sorted_descending:
  "sorted_wrt (\<lambda>a b. startIndex b < startIndex a) (sortDescending (findDirectives content))"
  using directives_ascending[of content]
  by (simp add: sortDescending_rev sorted_wrt_rev sorted_wrt_map)


lemma endIndex_in_window:
  assumes "i < length (findDirectives content)"
  shows "startIndex (findDirectives content ! i) < windowEnd content (findDirectives content) i
         \<and> windowEnd content (findDirectives content) i \<le> length content
         \<and> (endIndex (findDirectives content ! i) \<noteq> - 1 \<longrightarrow>
                0 \<le> endIndex (findDirectives content ! i)
                \<and> nat (endIndex (findDirectives content ! i))
                    \<le> windowEnd content (findDirectives content) i)"
proof -
  define mks where "mks = collectMarkers content 0"
  define a where "a = m_index (mks ! i) + m_length (mks ! i)"
  define b where "b = windowEnd content (closeMarkers content mks) i"
  define tag where "tag = closeTagOf (m_kind (mks ! i))"
  have ds: "findDirectives content = closeMarkers content mks"
    by (simp add: mks_def findDirectives_def)
  have i: "i < length mks" using assms by (simp add: ds length_closeMarkers)
  have sp: "spaced 0 (length content) mks" unfolding mks_def by (rule collectMarkers_spaced)
  from spaced_window[OF sp i] have w: "0 < m_length (mks ! i)" "a \<le> b" "b \<le> length content"
    by (simp_all add: a_def b_def)
  have st: "startIndex (closeMarkers content mks ! i) = m_index (mks ! i)"
    by (rule startIndex_closeMarkers[OF i])
  have e: "endIndex (closeMarkers content mks ! i)
      = (case findSub tag (take (b - a) (drop a content)) of
           Some r \<Rightarrow> int (a + r + length tag) | None \<Rightarrow> - 1)"
    using endIndex_closeMarkers[OF i, of content]
    by (simp add: a_def[symmetric] b_def[symmetric] tag_def[symmetric]
        substring_window[OF w(2) w(3)] indexOf_0 cong: option.case_cong)
  have "0 \<le> endIndex (closeMarkers content mks ! i)
        \<and> nat (endIndex (closeMarkers content mks ! i)) \<le> b"
    if ne: "endIndex (closeMarkers content mks ! i) \<noteq> - 1"
  proof (cases "findSub tag (take (b - a) (drop a content))")
    case None
    with e ne show ?thesis by simp
  next
    case (Some r)
    from findSub_Some[OF Some] occursAt_window[OF w(2) w(3), of tag r]
    have "a + r + length tag \<le> b" by simp
    with e Some show ?thesis by simp
  qed
  with st w show ?thesis unfolding ds b_def a_def by simp
qed

lemma sorted_nth:
  assumes "k < length (findDirectives content)"
  shows "sortDescending (findDirectives content) ! k
           = findDirectives content ! (length (findDirectives content) - Suc k)"
  using assms by (simp add: sortDescending_rev rev_nth)

lemma sorted_window:
  assumes "k < length (findDirectives content)"
  shows "windowEnd content (findDirectives content) (length (findDirectives content) - Suc k)
           = (if k = 0 then length content
              else startIndex (sortDescending (findDirectives content) ! (k - 1)))"
proof (cases k)
  case 0
  with assms show ?thesis by (simp add: windowEnd_def)
next
  case (Suc j)
  with assms have j: "j < length (findDirectives content)" by simp
  from Suc assms have "Suc (length (findDirectives content) - Suc k)
      = length (findDirectives content) - Suc j" by simp
  moreover from j have "length (findDirectives content) - Suc j < length (findDirectives content)"
    by simp
  ultimately show ?thesis using Suc sorted_nth[OF j] by (simp add: windowEnd_def)
qed

text \<open>
  The order of the replacements. \<open>applyEmbeds\<close> folds the loop body over the directives in
  strictly descending order of \<open>startIndex\<close>. When the directive at position \<open>k\<close> of that
  order is reached, the current text still agrees with the original text on everything
  before the start of the directive processed just before it (the whole document for the
  first one); the directive's own marker starts inside that prefix and its close tag,
  when it has one, ends inside it.
\<close>

lemma reached_prefix_unchanged:
  assumes "k < length (sortDescending (findDirectives content))"
  shows "let sorted = sortDescending (findDirectives content);
             d = sorted ! k;
             W = (if k = 0 then length content else startIndex (sorted ! (k - 1)));
             current = fst (foldl (applyStep env mdFilePath) (content, [], caches) (take k sorted))
         in applyEmbeds env content mdFilePath caches
              = foldl (applyStep env mdFilePath) (content, [], caches) sorted
            \<and> sorted_wrt (\<lambda>a b. startIndex b < startIndex a) sorted
            \<and> take W current = take W content
            \<and> startIndex d < W \<and> W \<le> length content
            \<and> (endIndex d \<noteq> - 1 \<longrightarrow> 0 \<le> endIndex d \<and> nat (endIndex d) \<le> W)"
proof -
  define sorted where "sorted = sortDescending (findDirectives content)"
  define W where "W = (if k = 0 then length content else startIndex (sorted ! (k - 1)))"
  have k: "k < length (findDirectives content)"
    using assms by (simp add: sortDescending_rev)
  have desc: "sorted_wrt (\<lambda>a b. startIndex b < startIndex a) sorted"
    unfolding sorted_def by (rule sorted_descending)
  have W: "windowEnd content (findDirectives content) (length (findDirectives content) - Suc k) = W"
    unfolding W_def sorted_def by (rule sorted_window[OF k])
  have d: "sorted ! k = findDirectives content ! (length (findDirectives content) - Suc k)"
    unfolding sorted_def by (rule sorted_nth[OF k])
  have "length (findDirectives content) - Suc k < length (findDirectives content)"
    using k by simp
  from endIndex_in_window[OF this]
  have win: "startIndex (sorted ! k) < W" "W \<le> length content"
    "endIndex (sorted ! k) \<noteq> - 1 \<longrightarrow> 0 \<le> endIndex (sorted ! k) \<and> nat (endIndex (sorted ! k)) \<le> W"
    by (simp_all add: W d)
  have "W \<le> startIndex p" if "p \<in> set (take k sorted)" for p
  proof -
    from that obtain j where j: "j < k" "p = sorted ! j"
      by (metis in_set_conv_nth length_take min_less_iff_conj nth_take)
    show ?thesis
    proof (cases "j = k - 1")
      case True
      with j show ?thesis by (simp add: W_def)
    next
      case False
      with j have "j < k - 1" by simp
      moreover have "k - 1 < length sorted" using assms by (simp add: sorted_def)
      ultimately have "startIndex (sorted ! (k - 1)) < startIndex (sorted ! j)"
        using sorted_wrt_nth_less[OF desc] by blast
      with j show ?thesis by (simp add: W_def)
    qed
  qed
  then have "\<forall>p \<in> set (take k sorted). W \<le> startIndex p" by blast
  from loop_prefix[OF this, of env mdFilePath "(content, [], caches)"]
  have pre: "take W (fst (foldl (applyStep env mdFilePath) (content, [], caches) (take k sorted)))
      = take W content" by simp
  from desc pre win applyEmbeds_foldl[of env content mdFilePath caches] show ?thesis
    unfolding Let_def sorted_def[symmetric] W_def[symmetric] by simp
qed

text \<open>
  A run started with caches that agree with the files reports every failing directive
  once, in the order of processing, and its text is what the iterations of the other
  directives make of the document.
\<close>

lemma failing_directives_skipped:
  assumes "cacheOk env caches"
  shows "errorsOf (applyEmbeds env content md caches)
           = map (reportOf env md) (filter (failing env md) (sortDescending (findDirectives content)))
         \<and> outputOf (applyEmbeds env content md caches)
             = foldl (rewriteText env md) content
                 (filter (\<lambda>d. \<not> failing env md d) (sortDescending (findDirectives content)))"
  using loop_pure[OF assms, of md content "[]" "sortDescending (findDirectives content)"]
    foldl_rewrite_filter[of env md content "sortDescending (findDirectives content)"]
  by (simp add: applyEmbeds_foldl outputOf_def errorsOf_def)

section \<open>Documents whose first marker has a space before the symbol\<close>

text \<open>A source file with one class, the block generated from it and the cache after reading it.\<close>

definition fooEnv :: Env where
  "fooEnv = docsEnv (str ''a.cs'') (str ''class Foo { }'')"

definition fooBlock :: jstr where
  "fooBlock = [10] @ str ''```csharp'' @ [10] @ str ''// @generated by embed-sync '' @ [8212]
              @ str '' do not edit'' @ [10] @ str ''class Foo { }'' @ [10] @ str ''```'' @ [10]
              @ str ''<!-- /cs-embed -->''"

definition fooCached :: Caches where
  "fooCached = \<lparr>tsFileCache = Map.empty, csFileCache = [str ''/docs/a.cs'' \<mapsto> str ''class Foo { }'']\<rparr>"

text \<open>
  Two directives for the same symbol. The scanner accepts white space between the path
  and \<open>#\<close> (it belongs to group 2 and is trimmed away); the first marker has it.
\<close>

definition misDoc :: jstr where
  "misDoc = str ''<!-- cs-embed: a.cs #Foo -->'' @ [10] @ str ''<!-- cs-embed: a.cs#Foo -->''"

definition misFirst :: EmbedDirective where
  "misFirst = \<lparr>kind = Cs, sourcePath = str ''a.cs'', symbolName = str ''Foo'', lineNumber = 1,
               startIndex = 0, endIndex = - 1\<rparr>"

definition misSecond :: EmbedDirective where
  "misSecond = \<lparr>kind = Cs, sourcePath = str ''a.cs'', symbolName = str ''Foo'', lineNumber = 2,
               startIndex = 29, endIndex = - 1\<rparr>"

lemma misDoc_directives: "findDirectives misDoc = [misFirst, misSecond]"
  by (simp add: ev misDoc_def misFirst_def misSecond_def)

lemma misDoc_sorted: "sortDescending [misFirst, misSecond] = [misSecond, misFirst]"
  by (simp add: sortDescending_def misFirst_def misSecond_def)

lemma misSecond_step:
  "applyStep fooEnv (str ''/docs/x.md'') (misDoc, [], noCaches) misSecond
     = (misDoc @ fooBlock, [], fooCached)"
  by (simp add: ev misDoc_def misSecond_def fooEnv_def fooCached_def fooBlock_def)

lemma misFirst_step:
  "applyStep fooEnv (str ''/docs/x.md'') (misDoc @ fooBlock, [], fooCached) misFirst
     = (misDoc @ fooBlock @ fooBlock, [], fooCached)"
  by (simp add: ev misDoc_def misFirst_def fooEnv_def fooCached_def fooBlock_def)

lemma misDoc_run:
  "applyEmbeds fooEnv misDoc (str ''/docs/x.md'') noCaches
     = (misDoc @ fooBlock @ fooBlock, [], fooCached)"
  using misDoc_directives misDoc_sorted misSecond_step misFirst_step
  by (simp add: applyEmbeds_def)

section \<open>A directive rewritten at a later directive's marker\<close>

text \<open>
  The same two directives, each with a stale body and a close tag.
\<close>

definition staleDoc :: jstr where
  "staleDoc = str ''<!-- cs-embed: a.cs #Foo -->'' @ [10] @ str ''old'' @ [10]
              @ str ''<!-- /cs-embed -->'' @ [10]
              @ str ''<!-- cs-embed: a.cs#Foo -->'' @ [10] @ str ''old'' @ [10]
              @ str ''<!-- /cs-embed -->''"

definition staleFirst :: EmbedDirective where
  "staleFirst = \<lparr>kind = Cs, sourcePath = str ''a.cs'', symbolName = str ''Foo'', lineNumber = 1,
                startIndex = 0, endIndex = 51\<rparr>"

definition staleSecond :: EmbedDirective where
  "staleSecond = \<lparr>kind = Cs, sourcePath = str ''a.cs'', symbolName = str ''Foo'', lineNumber = 4,
                 startIndex = 52, endIndex = 102\<rparr>"

lemma staleDoc_directives: "findDirectives staleDoc = [staleFirst, staleSecond]"
  by (simp add: ev staleDoc_def staleFirst_def staleSecond_def)

lemma staleDoc_sorted: "sortDescending [staleFirst, staleSecond] = [staleSecond, staleFirst]"
  by (simp add: sortDescending_def staleFirst_def staleSecond_def)

lemma staleSecond_step:
  "applyStep fooEnv (str ''/docs/x.md'') (staleDoc, [], noCaches) staleSecond
     = (take 79 staleDoc @ fooBlock, [], fooCached)"
  by (simp add: ev staleDoc_def staleSecond_def fooEnv_def fooCached_def fooBlock_def)

lemma staleFirst_step:
  "applyStep fooEnv (str ''/docs/x.md'') (take 79 staleDoc @ fooBlock, [], fooCached) staleFirst
     = (take 79 staleDoc @ fooBlock @ drop 51 (take 79 staleDoc) @ fooBlock, [], fooCached)"
  by (simp add: ev staleDoc_def staleFirst_def fooEnv_def fooCached_def fooBlock_def)

lemma staleDoc_run:
  "applyEmbeds fooEnv staleDoc (str ''/docs/x.md'') noCaches
     = (take 79 staleDoc @ fooBlock @ drop 51 (take 79 staleDoc) @ fooBlock, [], fooCached)"
  using staleDoc_directives staleDoc_sorted staleSecond_step staleFirst_step
  by (simp add: applyEmbeds_def)

text \<open>
  Claim C2. The replacements run in descending order of \<open>startIndex\<close> and the stored
  offsets stay valid, but the marker of a directive is then looked up again, from its
  \<open>startIndex\<close> onwards, with a pattern that is not anchored there and that allows no white
  space before \<open>#\<close>. The first marker of both documents has such a space, so the search
  started at offset 0 passes it and stops at the second directive's marker. In the first
  document both generated blocks are placed after the second marker and none after the
  first, where the claim wants one. In the second the first directive keeps its stale
  body, and the text from its close tag to the end of the second marker is written a
  second time: the result should be each marker followed by one block.
\<close>

theorem earlier_marker_mislocated:
  "map startIndex (findDirectives misDoc) = [0, 29]
   \<and> applyEmbeds fooEnv misDoc (str ''/docs/x.md'') noCaches
       = (misDoc @ fooBlock @ fooBlock, [], fooCached)
   \<and> outputOf (applyEmbeds fooEnv misDoc (str ''/docs/x.md'') noCaches)
       \<noteq> str ''<!-- cs-embed: a.cs #Foo -->'' @ fooBlock @ [10]
          @ str ''<!-- cs-embed: a.cs#Foo -->'' @ fooBlock
   \<and> map startIndex (findDirectives staleDoc) = [0, 52]
   \<and> outputOf (applyEmbeds fooEnv staleDoc (str ''/docs/x.md'') noCaches)
       = str ''<!-- cs-embed: a.cs #Foo -->'' @ [10] @ str ''old'' @ [10]
         @ str ''<!-- /cs-embed -->'' @ [10]
         @ str ''<!-- cs-embed: a.cs#Foo -->'' @ fooBlock @ [10]
         @ str ''<!-- cs-embed: a.cs#Foo -->'' @ fooBlock
   \<and> outputOf (applyEmbeds fooEnv staleDoc (str ''/docs/x.md'') noCaches)
       \<noteq> str ''<!-- cs-embed: a.cs #Foo -->'' @ fooBlock @ [10]
          @ str ''<!-- cs-embed: a.cs#Foo -->'' @ fooBlock"
proof -
  have a: "map startIndex (findDirectives misDoc) = [0, 29]"
    by (simp add: misDoc_directives misFirst_def misSecond_def)
  have b: "misDoc @ fooBlock @ fooBlock
      \<noteq> str ''<!-- cs-embed: a.cs #Foo -->'' @ fooBlock @ [10]
          @ str ''<!-- cs-embed: a.cs#Foo -->'' @ fooBlock"
    by (simp add: misDoc_def fooBlock_def str_def)
  have c: "map startIndex (findDirectives staleDoc) = [0, 52]"
    by (simp add: staleDoc_directives staleFirst_def staleSecond_def)
  have d: "take 79 staleDoc @ fooBlock @ drop 51 (take 79 staleDoc) @ fooBlock
      = str ''<!-- cs-embed: a.cs #Foo -->'' @ [10] @ str ''old'' @ [10]
         @ str ''<!-- /cs-embed -->'' @ [10]
         @ str ''<!-- cs-embed: a.cs#Foo -->'' @ fooBlock @ [10]
         @ str ''<!-- cs-embed: a.cs#Foo -->'' @ fooBlock"
    by (simp add: staleDoc_def str_def)
  have e: "take 79 staleDoc @ fooBlock @ drop 51 (take 79 staleDoc) @ fooBlock
      \<noteq> str ''<!-- cs-embed: a.cs #Foo -->'' @ fooBlock @ [10]
          @ str ''<!-- cs-embed: a.cs#Foo -->'' @ fooBlock"
    by (simp add: staleDoc_def fooBlock_def str_def)
  from a b c d e show ?thesis by (simp add: misDoc_run staleDoc_run outputOf_def)
qed

section \<open>A second run changes the text again\<close>

text \<open>
  The directives of the text that the first run makes of \<open>misDoc\<close>: the first generated
  block is now the body of the second directive.
\<close>

definition againSecond :: EmbedDirective where
  "againSecond = \<lparr>kind = Cs, sourcePath = str ''a.cs'', symbolName = str ''Foo'', lineNumber = 2,
                  startIndex = 29, endIndex = 145\<rparr>"

lemma again_directives: "findDirectives (misDoc @ fooBlock @ fooBlock) = [misFirst, againSecond]"
  by (simp add: ev misDoc_def misFirst_def againSecond_def fooBlock_def)

lemma again_sorted: "sortDescending [misFirst, againSecond] = [againSecond, misFirst]"
  by (simp add: sortDescending_def misFirst_def againSecond_def)

lemma againSecond_step:
  "applyStep fooEnv (str ''/docs/x.md'') (misDoc @ fooBlock @ fooBlock, [], noCaches) againSecond
     = (misDoc @ fooBlock @ fooBlock, [], fooCached)"
  by (simp add: ev misDoc_def againSecond_def fooEnv_def fooCached_def fooBlock_def)

lemma againFirst_step:
  "applyStep fooEnv (str ''/docs/x.md'') (misDoc @ fooBlock @ fooBlock, [], fooCached) misFirst
     = (misDoc @ fooBlock @ fooBlock @ fooBlock, [], fooCached)"
  by (simp add: ev misDoc_def misFirst_def fooEnv_def fooCached_def fooBlock_def)

lemma again_run:
  "applyEmbeds fooEnv (misDoc @ fooBlock @ fooBlock) (str ''/docs/x.md'') noCaches
     = (misDoc @ fooBlock @ fooBlock @ fooBlock, [], fooCached)"
  using again_directives again_sorted againSecond_step againFirst_step
  by (simp add: applyEmbeds_def)

text \<open>
  Claim C1. The first run on \<open>misDoc\<close> resolves both directives and reports no error; its
  output is the document followed by two generated blocks. The second run, on that
  output and the same source file, rewrites the second directive to the same text and
  then inserts a block for the first directive after the second marker once more: its
  output has three blocks. Applying \<open>applyEmbeds\<close> to its own output does not give the
  same text.
\<close>

theorem second_run_changes_output:
  "errorsOf (applyEmbeds fooEnv misDoc (str ''/docs/x.md'') noCaches) = []
   \<and> outputOf (applyEmbeds fooEnv misDoc (str ''/docs/x.md'') noCaches)
       = misDoc @ fooBlock @ fooBlock
   \<and> outputOf (applyEmbeds fooEnv
                 (outputOf (applyEmbeds fooEnv misDoc (str ''/docs/x.md'') noCaches))
                 (str ''/docs/x.md'') noCaches)
       = misDoc @ fooBlock @ fooBlock @ fooBlock
   \<and> outputOf (applyEmbeds fooEnv
                 (outputOf (applyEmbeds fooEnv misDoc (str ''/docs/x.md'') noCaches))
                 (str ''/docs/x.md'') noCaches)
       \<noteq> outputOf (applyEmbeds fooEnv misDoc (str ''/docs/x.md'') noCaches)"
proof -
  have "fooBlock \<noteq> []" by (simp add: fooBlock_def)
  then show ?thesis by (simp add: misDoc_run again_run outputOf_def errorsOf_def)
qed

section \<open>A failing directive whose span is written into\<close>

text \<open>
  The path of the second marker of this document holds the text of a marker: the scanner
  reads \<^verbatim>\<open>x <!-- cs-embed: a.cs\<close> as the path, up to the \<open>#\<close>, and no file of that name
  exists. The second directive has a body and a close tag.
\<close>

definition nestDoc :: jstr where
  "nestDoc = str ''<!-- cs-embed: a.cs #Foo -->'' @ [10]
             @ str ''<!-- cs-embed: x <!-- cs-embed: a.cs#Foo -->'' @ [10] @ str ''old'' @ [10]
             @ str ''<!-- /cs-embed -->''"

definition nestSecond :: EmbedDirective where
  "nestSecond = \<lparr>kind = Cs, sourcePath = str ''x <!-- cs-embed: a.cs'', symbolName = str ''Foo'',
                 lineNumber = 2, startIndex = 29, endIndex = 96\<rparr>"

definition nestReport :: ErrorReport where
  "nestReport = \<lparr>e_mdFile = str ''/docs/x.md'', e_lineNumber = 2,
                 e_reason = str ''File not found: /docs/x <!-- cs-embed: a.cs'',
                 e_sourcePath = str ''x <!-- cs-embed: a.cs'', e_symbolName = str ''Foo''\<rparr>"

lemma nestDoc_directives: "findDirectives nestDoc = [misFirst, nestSecond]"
  by (simp add: ev nestDoc_def misFirst_def nestSecond_def)

lemma nestDoc_sorted: "sortDescending [misFirst, nestSecond] = [nestSecond, misFirst]"
  by (simp add: sortDescending_def misFirst_def nestSecond_def)

lemma nestSecond_resolves:
  "resolveEmbed fooEnv nestSecond (str ''/docs/x.md'') noCaches
     = (\<lparr>directive = nestSecond, code = None,
         error = Some (str ''File not found: /docs/x <!-- cs-embed: a.cs'')\<rparr>, noCaches)"
  by (simp add: ev nestSecond_def fooEnv_def)

lemma nestSecond_step:
  "applyStep fooEnv (str ''/docs/x.md'') (nestDoc, [], noCaches) nestSecond
     = (nestDoc, [nestReport], noCaches)"
  by (simp add: ev nestDoc_def nestSecond_def fooEnv_def nestReport_def)

lemma nestFirst_step:
  "applyStep fooEnv (str ''/docs/x.md'') (nestDoc, [nestReport], noCaches) misFirst
     = (str ''<!-- cs-embed: a.cs #Foo -->'' @ [10]
        @ str ''<!-- cs-embed: x <!-- cs-embed: a.cs#Foo -->'' @ fooBlock
        @ [10] @ str ''old'' @ [10] @ str ''<!-- /cs-embed -->'', [nestReport], fooCached)"
  by (simp add: ev nestDoc_def misFirst_def fooEnv_def fooCached_def fooBlock_def nestReport_def)

lemma nestDoc_span:
  "substring nestDoc 29 96
     = str ''<!-- cs-embed: x <!-- cs-embed: a.cs#Foo -->'' @ [10] @ str ''old'' @ [10]
       @ str ''<!-- /cs-embed -->''"
  by (simp add: nestDoc_def evStr)

text \<open>
  Claim C7. The second directive of \<open>nestDoc\<close> fails to resolve, and its iteration leaves
  the text as it is and appends one report. The iteration of the first directive, which
  resolves, then looks for its marker from offset 0 with the unanchored pattern; its own
  marker has a space before \<open>#\<close> and does not match, and the search stops inside the
  second directive's marker, at offset 46. The generated block is inserted at the end of
  that marker: in the output the failing directive's marker is followed by the block of
  another symbol and a close tag, and only then by its own body and close tag.
\<close>

theorem failing_span_written_into:
  "findDirectives nestDoc = [misFirst, nestSecond]
   \<and> fst (resolveEmbed fooEnv nestSecond (str ''/docs/x.md'') noCaches)
       = \<lparr>directive = nestSecond, code = None,
          error = Some (str ''File not found: /docs/x <!-- cs-embed: a.cs'')\<rparr>
   \<and> substring nestDoc (startIndex nestSecond) (nat (endIndex nestSecond))
       = str ''<!-- cs-embed: x <!-- cs-embed: a.cs#Foo -->'' @ [10] @ str ''old'' @ [10]
         @ str ''<!-- /cs-embed -->''
   \<and> applyEmbeds fooEnv nestDoc (str ''/docs/x.md'') noCaches
       = (str ''<!-- cs-embed: a.cs #Foo -->'' @ [10]
          @ str ''<!-- cs-embed: x <!-- cs-embed: a.cs#Foo -->'' @ fooBlock
          @ [10] @ str ''old'' @ [10] @ str ''<!-- /cs-embed -->'', [nestReport], fooCached)"
proof -
  have "applyEmbeds fooEnv nestDoc (str ''/docs/x.md'') noCaches
       = (str ''<!-- cs-embed: a.cs #Foo -->'' @ [10]
          @ str ''<!-- cs-embed: x <!-- cs-embed: a.cs#Foo -->'' @ fooBlock
          @ [10] @ str ''old'' @ [10] @ str ''<!-- /cs-embed -->'', [nestReport], fooCached)"
    using nestDoc_directives nestDoc_sorted nestSecond_step nestFirst_step
    by (simp add: applyEmbeds_def)
  moreover have "substring nestDoc (startIndex nestSecond) (nat (endIndex nestSecond))
       = substring nestDoc 29 96" by (simp add: nestSecond_def)
  ultimately show ?thesis
    by (simp add: nestDoc_directives nestSecond_resolves nestDoc_span)
qed

end
